theory Spec2Isabelle
  imports Complex_Main
begin

section \<open>Collection items and responses\<close>

text \<open>
  The shapes read by \<^verbatim>\<open>src/clients/cachedDiscogs.ts\<close>. The declarations of
  \<^verbatim>\<open>DiscogsCollectionItem\<close>, \<^verbatim>\<open>DiscogsCollectionResponse\<close> and
  \<^verbatim>\<open>DiscogsCollectionStats\<close> live in \<^verbatim>\<open>./discogs\<close>; the fields below are
  the ones the code under study reads or writes. A format and a label are both read
  through their \<^verbatim>\<open>name\<close> only. A field whose use is guarded in the source
  (\<^verbatim>\<open>release.genres || []\<close>, \<^verbatim>\<open>if (release.year)\<close>) is an option:
  \<open>None\<close> is the absent property. Numbers that hold counts, years, page numbers and
  ratings are integers; the one quotient of the code is taken in the rationals.
\<close>

record named_entry =
  name :: string

record basic_information =
  year :: "int option"
  genres :: "string list option"
  formats :: "named_entry list option"
  labels :: "named_entry list option"

record discogs_collection_item =
  id :: int
  rating :: int
  basic_information :: basic_information

record pagination =
  pages :: int
  page :: int
  per_page :: int
  items :: int
  urls :: "(string \<times> string) list"

record discogs_collection_response =
  pagination :: pagination
  releases :: "discogs_collection_item list"

text \<open>
  The breakdowns are declared as records of numbers and are built as object literals
  \<^verbatim>\<open>{}\<close>. What such an object holds under a key at run time is a number or, after
  \<^verbatim>\<open>+\<close> has met a value that is not a number, a string. A breakdown is the finite map of
  the object's own properties.
\<close>

datatype js_value = Number nat | Text string

record discogs_collection_stats =
  totalReleases :: nat
  totalValue :: int
  genreBreakdown :: "string \<rightharpoonup> js_value"
  decadeBreakdown :: "string \<rightharpoonup> js_value"
  formatBreakdown :: "string \<rightharpoonup> js_value"
  labelBreakdown :: "string \<rightharpoonup> js_value"
  averageRating :: rat
  ratedReleases :: nat

section \<open>computeStatsFromReleases\<close>

text \<open>
  The decimal rendering of an integer inside a template literal, as
  \<^verbatim>\<open>`${Math.floor(release.year / 10) * 10}s`\<close> needs it.
\<close>

fun decimal :: "nat \<Rightarrow> string" where
  "decimal n =
     (if n < 10 then [''0123456789'' ! n]
      else decimal (n div 10) @ [''0123456789'' ! (n mod 10)])"

definition toString :: "int \<Rightarrow> string" where
  "toString i = (if i < 0 then CHR ''-'' # decimal (nat (- i)) else decimal (nat i))"

text \<open>\<^verbatim>\<open>`${Math.floor(release.year / 10) * 10}s`\<close>; on integers \<open>div\<close> rounds down,
  as \<^verbatim>\<open>Math.floor\<close> does.\<close>

definition decadeKey :: "int \<Rightarrow> string" where
  "decadeKey y = toString (y div 10 * 10) @ ''s''"

text \<open>\<^verbatim>\<open>xs || []\<close>\<close>

definition orEmpty :: "'a list option \<Rightarrow> 'a list" where
  "orEmpty xs = (case xs of None \<Rightarrow> [] | Some ys \<Rightarrow> ys)"

text \<open>
  The properties every object literal inherits from \<^verbatim>\<open>Object.prototype\<close>. All are
  functions, but \<^verbatim>\<open>__proto__\<close>, an accessor that answers \<^verbatim>\<open>Object.prototype\<close> itself.
\<close>

definition prototypeNames :: "string list" where
  "prototypeNames =
     [''constructor'', ''__defineGetter__'', ''__defineSetter__'', ''hasOwnProperty'',
      ''__lookupGetter__'', ''__lookupSetter__'', ''isPrototypeOf'', ''propertyIsEnumerable'',
      ''toString'', ''valueOf'', ''__proto__'', ''toLocaleString'']"

text \<open>
  The string that \<^verbatim>\<open>+\<close> makes of an inherited property before it concatenates: the
  source text of a native function, as V8 prints it, or \<^verbatim>\<open>[object Object]\<close> for the
  prototype object.
\<close>

definition inherited :: "string \<Rightarrow> string" where
  "inherited k =
     (if k = ''__proto__'' then ''[object Object]''
      else ''function '' @ (if k = ''constructor'' then ''Object'' else k)
             @ ''() { [native code] }'')"

text \<open>\<^verbatim>\<open>breakdown[k]\<close> read: the own property, or else the inherited one, or else
  \<^verbatim>\<open>undefined\<close>.\<close>

definition getProperty :: "(string \<rightharpoonup> js_value) \<Rightarrow> string \<Rightarrow> js_value option" where
  "getProperty m k =
     (case m k of
        Some v \<Rightarrow> Some v
      | None \<Rightarrow> if k \<in> set prototypeNames then Some (Text (inherited k)) else None)"

text \<open>\<^verbatim>\<open>x || 0\<close>: \<^verbatim>\<open>undefined\<close>, the number 0 and the empty string are falsy.\<close>

definition orZero :: "js_value option \<Rightarrow> js_value" where
  "orZero x =
     (case x of
        None \<Rightarrow> Number 0
      | Some (Number n) \<Rightarrow> Number n
      | Some (Text t) \<Rightarrow> if t = [] then Number 0 else Text t)"

text \<open>\<^verbatim>\<open>x + 1\<close>: addition on a number, concatenation with \<^verbatim>\<open>"1"\<close> on a string.\<close>

fun plusOne :: "js_value \<Rightarrow> js_value" where
  "plusOne (Number n) = Number (n + 1)"
| "plusOne (Text t) = Text (t @ ''1'')"

text \<open>
  \<^verbatim>\<open>breakdown[k] = v\<close> written, for a number or a string \<open>v\<close>: an own property is set,
  except under \<^verbatim>\<open>__proto__\<close>, whose setter ignores a value that is not an object.
\<close>

definition setProperty :: "(string \<rightharpoonup> js_value) \<Rightarrow> string \<Rightarrow> js_value \<Rightarrow> (string \<rightharpoonup> js_value)" where
  "setProperty m k v = (if k = ''__proto__'' then m else m(k \<mapsto> v))"

text \<open>\<^verbatim>\<open>breakdown[k] = (breakdown[k] || 0) + 1\<close>, lines 301, 306, 310 and 314.\<close>

definition increment :: "(string \<rightharpoonup> js_value) \<Rightarrow> string \<Rightarrow> (string \<rightharpoonup> js_value)" where
  "increment m k = setProperty m k (plusOne (orZero (getProperty m k)))"

text \<open>The state of the pass: the record under construction and the two local counters.\<close>

record stats_pass =
  stats :: discogs_collection_stats
  totalRating :: int
  ratedCount :: nat

text \<open>One iteration of \<^verbatim>\<open>for (const item of releases)\<close>, lines 297 to 321.\<close>

definition visit :: "stats_pass \<Rightarrow> discogs_collection_item \<Rightarrow> stats_pass" where
  "visit a item =
     (let release = basic_information item;
          s0 = stats a;
          s1 = s0\<lparr>genreBreakdown := foldl increment (genreBreakdown s0) (orEmpty (genres release))\<rparr>;
          s2 = (case year release of
                  None \<Rightarrow> s1
                | Some y \<Rightarrow>
                    if y \<noteq> 0
                    then s1\<lparr>decadeBreakdown := increment (decadeBreakdown s1) (decadeKey y)\<rparr>
                    else s1);
          s3 = s2\<lparr>formatBreakdown :=
                    foldl increment (formatBreakdown s2) (map name (orEmpty (formats release)))\<rparr>;
          s4 = s3\<lparr>labelBreakdown :=
                    foldl increment (labelBreakdown s3) (map name (orEmpty (labels release)))\<rparr>
      in if rating item > 0
         then \<lparr>stats = s4, totalRating = totalRating a + rating item, ratedCount = ratedCount a + 1\<rparr>
         else \<lparr>stats = s4, totalRating = totalRating a, ratedCount = ratedCount a\<rparr>)"

definition initialStats :: "discogs_collection_item list \<Rightarrow> discogs_collection_stats" where
  "initialStats rs =
     \<lparr>totalReleases = length rs, totalValue = 0,
      genreBreakdown = Map.empty, decadeBreakdown = Map.empty,
      formatBreakdown = Map.empty, labelBreakdown = Map.empty,
      averageRating = 0, ratedReleases = 0\<rparr>"

definition computeStatsFromReleases :: "discogs_collection_item list \<Rightarrow> discogs_collection_stats" where
  "computeStatsFromReleases rs =
     (let final = foldl visit \<lparr>stats = initialStats rs, totalRating = 0, ratedCount = 0\<rparr> rs
      in (stats final)
           \<lparr>averageRating :=
              (if ratedCount final > 0
               then of_int (totalRating final) / of_nat (ratedCount final) else 0),
            ratedReleases := ratedCount final\<rparr>)"

subsection \<open>What the properties are stated with\<close>

text \<open>The items that carry a strictly positive rating.\<close>

definition rated :: "discogs_collection_item list \<Rightarrow> discogs_collection_item list" where
  "rated rs = filter (\<lambda>item. rating item > 0) rs"

text \<open>A mapping from tag to count: a tag that never occurs is not a key.\<close>

definition tally :: "string list \<Rightarrow> (string \<rightharpoonup> nat)" where
  "tally ks = (\<lambda>k. if count_list ks k = 0 then None else Some (count_list ks k))"

definition genreTags :: "discogs_collection_item list \<Rightarrow> string list" where
  "genreTags rs = concat (map (\<lambda>item. orEmpty (genres (basic_information item))) rs)"

definition formatTags :: "discogs_collection_item list \<Rightarrow> string list" where
  "formatTags rs = concat (map (\<lambda>item. map name (orEmpty (formats (basic_information item)))) rs)"

definition labelTags :: "discogs_collection_item list \<Rightarrow> string list" where
  "labelTags rs = concat (map (\<lambda>item. map name (orEmpty (labels (basic_information item)))) rs)"

text \<open>The decade of an item, when its year is present and not zero.\<close>

definition decadeOf :: "discogs_collection_item \<Rightarrow> string list" where
  "decadeOf item =
     (case year (basic_information item) of
        None \<Rightarrow> []
      | Some y \<Rightarrow> if y \<noteq> 0 then [decadeKey y] else [])"

definition decadeTags :: "discogs_collection_item list \<Rightarrow> string list" where
  "decadeTags rs = concat (map decadeOf rs)"

text \<open>The counts of a mapping as an object holds them: numbers under own keys.\<close>

definition counted :: "(string \<rightharpoonup> nat) \<Rightarrow> (string \<rightharpoonup> js_value)" where
  "counted t = (\<lambda>k. map_option Number (t k))"

text \<open>The pass keeps the two counters in step with the items visited so far, the genre,
  format and label breakdowns under a key \<open>k\<close>, and the decade breakdown.\<close>

definition tracks :: "discogs_collection_item list \<Rightarrow> stats_pass \<Rightarrow> bool" where
  "tracks rs a \<longleftrightarrow>
     totalRating a = sum_list (map rating (rated rs)) \<and>
     ratedCount a = length (rated rs)"

definition tallies :: "string \<Rightarrow> discogs_collection_item list \<Rightarrow> stats_pass \<Rightarrow> bool" where
  "tallies k rs a \<longleftrightarrow>
     genreBreakdown (stats a) k = counted (tally (genreTags rs)) k \<and>
     formatBreakdown (stats a) k = counted (tally (formatTags rs)) k \<and>
     labelBreakdown (stats a) k = counted (tally (labelTags rs)) k"

definition decades :: "discogs_collection_item list \<Rightarrow> stats_pass \<Rightarrow> bool" where
  "decades rs a \<longleftrightarrow> decadeBreakdown (stats a) = counted (tally (decadeTags rs))"

text \<open>The two items of the stats example, and an item whose year is unknown.\<close>

definition abbeyRoad :: discogs_collection_item where
  "abbeyRoad =
     \<lparr>id = 123456, rating = 5,
      basic_information =
        \<lparr>year = Some 1969, genres = Some [''Rock''],
         formats = Some [\<lparr>name = ''Vinyl''\<rparr>], labels = None\<rparr>\<rparr>"

definition darkSide :: discogs_collection_item where
  "darkSide =
     \<lparr>id = 654321, rating = 4,
      basic_information =
        \<lparr>year = Some 1973, genres = Some [''Rock''],
         formats = Some [\<lparr>name = ''Vinyl''\<rparr>], labels = None\<rparr>\<rparr>"

definition undated :: discogs_collection_item where
  "undated =
     \<lparr>id = 1, rating = 0,
      basic_information =
        \<lparr>year = Some 0, genres = Some [''Rock''], formats = None, labels = None\<rparr>\<rparr>"

text \<open>An item whose genres name two properties that every object inherits.\<close>

definition oddlyTagged :: discogs_collection_item where
  "oddlyTagged =
     \<lparr>id = 2, rating = 0,
      basic_information =
        \<lparr>year = Some 1980, genres = Some [''constructor'', ''__proto__'', ''Rock''],
         formats = None, labels = None\<rparr>\<rparr>"

section \<open>getCompleteCollection: the fetch function\<close>

text \<open>
  The function handed to \<^verbatim>\<open>getOrFetch\<close> by \<^verbatim>\<open>getCompleteCollection\<close>, lines 217 to
  256. It awaits \<^verbatim>\<open>this.searchCollection(username, ..., { page: currentPage, per_page: 100 },
  ...)\<close> once per iteration. That method (lines 53 to 86) wraps the client's page request
  in a cache of its own; here it is the page-fetch collaborator as a whole, and a page
  fetch is one call of it: a function of the page number and the page size that reads
  and changes a world \<open>'w\<close> (the cache, the upstream service, the console) and either
  throws (\<open>Inl\<close>) or returns a response. An awaited call is one step of the model: the
  loop goes on in the world the call leaves behind.
\<close>

type_synonym ('e, 'w) searchCollection =
  "int \<Rightarrow> int \<Rightarrow> 'w \<Rightarrow> ('e + discogs_collection_response) \<times> 'w"

text \<open>
  The \<^verbatim>\<open>do { ... } while (currentPage <= totalPages)\<close> loop, lines 225 to 238. The
  body runs before the test, and it assigns \<^verbatim>\<open>totalPages\<close> before the test reads it,
  so the initial value 1 of \<^verbatim>\<open>totalPages\<close> is never read and is no argument. The
  result is the pair of \<^verbatim>\<open>allReleases\<close> and \<^verbatim>\<open>totalPages\<close> at the exit of the loop.
\<close>

function fetchPages ::
  "('e, 'w) searchCollection \<Rightarrow> int \<Rightarrow> discogs_collection_item list \<Rightarrow> int \<Rightarrow> 'w
    \<Rightarrow> ('e + discogs_collection_item list \<times> int) \<times> 'w" where
  "fetchPages search maxPages allReleases currentPage w =
     (case search currentPage 100 w of
        (Inl e, w') \<Rightarrow> (Inl e, w')
      | (Inr pageResult, w') \<Rightarrow>
          (let allReleases' = allReleases @ releases pageResult;
               totalPages = min (pages (pagination pageResult)) maxPages;
               currentPage' = currentPage + 1
           in if currentPage' \<le> totalPages
              then fetchPages search maxPages allReleases' currentPage' w'
              else (Inr (allReleases', totalPages), w')))"
  by pat_completeness auto
termination
  by (relation "measure (\<lambda>(search, maxPages, allReleases, currentPage, w).
        nat (maxPages - currentPage))") auto

declare fetchPages.simps [simp del]

text \<open>
  The same loop with line 226 taken apart. \<^verbatim>\<open>await this.searchCollection(...)\<close> first
  evaluates the call, which issues the request and hands back a promise, and then
  awaits that promise: the loop resumes when the response has been received. The
  collaborator is the pair of the two: \<open>call\<close> for the page number and the page
  size, \<open>await\<close> for the promise. A loop that handed several calls to
  \<^verbatim>\<open>Promise.all\<close> would run several \<open>call\<close>s before the first \<open>await\<close>; this one
  awaits each promise where it is made.
\<close>

function fetchPagesStepwise ::
  "(int \<Rightarrow> int \<Rightarrow> 'w \<Rightarrow> 'p \<times> 'w) \<Rightarrow> ('p \<Rightarrow> 'w \<Rightarrow> ('e + discogs_collection_response) \<times> 'w)
    \<Rightarrow> int \<Rightarrow> discogs_collection_item list \<Rightarrow> int \<Rightarrow> 'w
    \<Rightarrow> ('e + discogs_collection_item list \<times> int) \<times> 'w" where
  "fetchPagesStepwise call await maxPages allReleases currentPage w =
     (case call currentPage 100 w of
        (promise, w1) \<Rightarrow>
          (case await promise w1 of
             (Inl e, w') \<Rightarrow> (Inl e, w')
           | (Inr pageResult, w') \<Rightarrow>
               (let allReleases' = allReleases @ releases pageResult;
                    totalPages = min (pages (pagination pageResult)) maxPages;
                    currentPage' = currentPage + 1
                in if currentPage' \<le> totalPages
                   then fetchPagesStepwise call await maxPages allReleases' currentPage' w'
                   else (Inr (allReleases', totalPages), w'))))"
  by pat_completeness auto
termination
  by (relation "measure (\<lambda>(call, await, maxPages, allReleases, currentPage, w).
        nat (maxPages - currentPage))") auto

declare fetchPagesStepwise.simps [simp del]

text \<open>Line 240. \<^verbatim>\<open>Math.ceil(allReleases.length / 100)\<close> is the ceiling of an exact quotient.\<close>

definition wasTruncated :: "int \<Rightarrow> discogs_collection_item list \<Rightarrow> bool" where
  "wasTruncated totalPages allReleases \<longleftrightarrow>
     totalPages < (if length allReleases > 0
                   then \<lceil>rat_of_nat (length allReleases) / 100\<rceil> else 1)"

text \<open>Lines 246 to 255: the value returned. It has no field for truncation.\<close>

definition aggregate :: "int \<Rightarrow> discogs_collection_item list \<Rightarrow> discogs_collection_response" where
  "aggregate totalPages allReleases =
     \<lparr>pagination =
        \<lparr>pages = totalPages, page = 1, per_page = int (length allReleases),
         items = int (length allReleases), urls = []\<rparr>,
      releases = allReleases\<rparr>"

text \<open>The two messages the function writes with \<^verbatim>\<open>console.log\<close>, lines 218 and 242.\<close>

datatype log_line = FetchingComplete string int | CollectionTruncated int nat

text \<open>
  The whole function: what it returns or throws, what it wrote to the console, and the
  world it leaves. \<^verbatim>\<open>wasTruncated\<close> is a local constant: its one use is to guard the
  second message.
\<close>

definition fetchAllPages ::
  "string \<Rightarrow> ('e, 'w) searchCollection \<Rightarrow> int \<Rightarrow> 'w
    \<Rightarrow> ('e + discogs_collection_response) \<times> log_line list \<times> 'w" where
  "fetchAllPages username search maxPages w =
     (let console = [FetchingComplete username maxPages]
      in case fetchPages search maxPages [] 1 w of
           (Inl e, w') \<Rightarrow> (Inl e, console, w')
         | (Inr (allReleases, totalPages), w') \<Rightarrow>
             (Inr (aggregate totalPages allReleases),
              (if wasTruncated totalPages allReleases
               then console @ [CollectionTruncated maxPages (length allReleases)]
               else console),
              w'))"

subsection \<open>An instrumented page-fetch collaborator\<close>

text \<open>
  The world of an instrumented collaborator is the journal of what it has seen: a
  request with its page number and page size when a call is issued, a response when
  the call settles, with a value or with an error. The source behind it answers a page
  number, and may take the journal so far into account (a rate limit does).
\<close>

datatype event = Requested int int | Responded int

definition observing ::
  "(event list \<Rightarrow> int \<Rightarrow> 'e + discogs_collection_response) \<Rightarrow> ('e, event list) searchCollection" where
  "observing src p perPage tr = (src tr p, tr @ [Requested p perPage, Responded p])"

definition observed ::
  "(int \<Rightarrow> 'e + discogs_collection_response) \<Rightarrow> ('e, event list) searchCollection" where
  "observed src = observing (\<lambda>tr. src)"

text \<open>
  The instrumented collaborator with the call and the await apart. The call writes the
  request to the journal and hands back the page number as the promise; the await writes
  the response, which the source gives from the journal so far and the page number.
\<close>

definition issuing :: "int \<Rightarrow> int \<Rightarrow> event list \<Rightarrow> int \<times> event list" where
  "issuing p perPage tr = (p, tr @ [Requested p perPage])"

definition settling ::
  "(event list \<Rightarrow> int \<Rightarrow> 'e + discogs_collection_response) \<Rightarrow> int \<Rightarrow> event list
    \<Rightarrow> ('e + discogs_collection_response) \<times> event list" where
  "settling src p tr = (src tr p, tr @ [Responded p])"

text \<open>The pages requested, in the order of the requests.\<close>

definition requestedPages :: "event list \<Rightarrow> int list" where
  "requestedPages tr =
     concat (map (\<lambda>ev. case ev of Requested p perPage \<Rightarrow> [p] | Responded p \<Rightarrow> []) tr)"

text \<open>One awaited fetch of page \<open>p\<close> at 100 items a page, and those of pages \<open>i\<close> to \<open>j\<close>.\<close>

definition exchange :: "int \<Rightarrow> event list" where
  "exchange p = [Requested p 100, Responded p]"

definition exchanges :: "int \<Rightarrow> int \<Rightarrow> event list" where
  "exchanges i j = concat (map exchange [i..j])"

text \<open>
  A journal is in order when every request is for the page after the last page whose
  response has been received, and no request is issued while another is in flight.
  \<open>received\<close> is the last page received, \<open>inFlight\<close> the page requested and not yet
  answered.
\<close>

fun inOrder :: "int \<Rightarrow> int option \<Rightarrow> event list \<Rightarrow> bool" where
  "inOrder received inFlight [] = True"
| "inOrder received None (Requested p perPage # es) =
     (p = received + 1 \<and> inOrder received (Some p) es)"
| "inOrder received (Some q) (Requested p perPage # es) = False"
| "inOrder received (Some q) (Responded p # es) = (p = q \<and> inOrder p None es)"
| "inOrder received None (Responded p # es) = False"

text \<open>The items a source serves on a page; none when the page fails.\<close>

definition releasesOf :: "(int \<Rightarrow> 'e + discogs_collection_response) \<Rightarrow> int \<Rightarrow> discogs_collection_item list" where
  "releasesOf src p = (case src p of Inl e \<Rightarrow> [] | Inr r \<Rightarrow> releases r)"

text \<open>A source reports \<open>P\<close> total pages on pages 1 to \<open>k\<close>: each of them is served, and
  its pagination says \<open>P\<close>.\<close>

definition reportsTotal :: "(int \<Rightarrow> 'e + discogs_collection_response) \<Rightarrow> int \<Rightarrow> int \<Rightarrow> bool" where
  "reportsTotal src P k =
     list_all (\<lambda>p. case src p of Inl e \<Rightarrow> False | Inr r \<Rightarrow> pages (pagination r) = P) [1..k]"

subsection \<open>Sources used as examples\<close>

text \<open>Page \<open>p\<close> of a collection of \<open>n\<close> full pages of 100 items.\<close>

definition fullPage :: "int \<Rightarrow> int \<Rightarrow> discogs_collection_response" where
  "fullPage n p =
     \<lparr>pagination = \<lparr>pages = n, page = p, per_page = 100, items = n * 100, urls = []\<rparr>,
      releases = replicate 100 abbeyRoad\<rparr>"

text \<open>A collection of 500 items: five pages, anything else is not found.\<close>

definition fivePages :: "int \<Rightarrow> string + discogs_collection_response" where
  "fivePages p = (if 1 \<le> p \<and> p \<le> 5 then Inr (fullPage 5 p) else Inl ''404 Not Found'')"


text \<open>An empty collection whose pagination says no page at all.\<close>

definition noPages :: "int \<Rightarrow> string + discogs_collection_response" where
  "noPages p =
     Inr \<lparr>pagination = \<lparr>pages = 0, page = p, per_page = 100, items = 0, urls = []\<rparr>,
          releases = []\<rparr>"

text \<open>Five pages, of which the second fails with a rate-limit error.\<close>

definition secondPageFails :: "int \<Rightarrow> string + discogs_collection_response" where
  "secondPageFails p = (if p = 2 then Inl ''429 Too Many Requests'' else fivePages p)"

section \<open>SmartCache and getCompleteCollection\<close>

text \<open>
  Modelled from the spec: \<^verbatim>\<open>SmartCache.getOrFetch\<close> of \<^verbatim>\<open>src/utils/cache.ts\<close>, which is
  imported by \<^verbatim>\<open>cachedDiscogs.ts\<close> and is not among the source files. The cache is the
  store of entries, each a payload with the time at which it expires, the registry of
  the full keys that have a fetch in flight, and the clock the store reads. A store
  that fails and a payload that does not parse are not part of this model.
\<close>

record 'v smart_cache =
  store :: "string \<rightharpoonup> 'v \<times> nat"
  pending :: "string set"
  clock :: nat

text \<open>
  Modelled from the spec: how one call of \<^verbatim>\<open>getOrFetch\<close> settles. It resolves with a
  value, rejects with the error of the fetch function, or joins the future that is in
  flight for its key, whose result is decided by the call that registered it.
\<close>

datatype ('e, 'v) settled = Resolved 'v | Rejected 'e | Joined string

text \<open>Modelled from the spec: an entry that the store holds (``present and not expired'').\<close>

definition cached :: "('v, 'z) smart_cache_scheme \<Rightarrow> string \<Rightarrow> 'v option" where
  "cached w k =
     (case store w k of
        None \<Rightarrow> None
      | Some (v, expiresAt) \<Rightarrow> if clock w < expiresAt then Some v else None)"

text \<open>Modelled from the spec: step 1, \<^verbatim>\<open>fullKey = category + ":" + key\<close>.\<close>

definition fullKey :: "string \<Rightarrow> string \<Rightarrow> string" where
  "fullKey category key = category @ '':'' @ key"

text \<open>
  Modelled from the spec: \<^verbatim>\<open>getOrFetch(category, key, fetchFn, options)\<close>, steps 1 to 5
  of its algorithm, for one call that runs until it settles. The fetch function runs in
  the world of the cache, which it may change. \<open>defaultTtl\<close> gives each category its
  default time to live, \<open>maxAge\<close> is \<^verbatim>\<open>options.maxAge\<close>.
\<close>

definition getOrFetch ::
  "(string \<Rightarrow> nat) \<Rightarrow> string \<Rightarrow> string
    \<Rightarrow> (('v, 'z) smart_cache_scheme \<Rightarrow> ('e + 'v) \<times> ('v, 'z) smart_cache_scheme)
    \<Rightarrow> nat option \<Rightarrow> ('v, 'z) smart_cache_scheme
    \<Rightarrow> ('e, 'v) settled \<times> ('v, 'z) smart_cache_scheme" where
  "getOrFetch defaultTtl category key fetchFn maxAge w =
     (let k = fullKey category key
      in if k \<in> pending w then (Joined k, w)
         else
           (let w1 = w\<lparr>pending := insert k (pending w)\<rparr>
            in case cached w1 k of
                 Some v \<Rightarrow> (Resolved v, w1\<lparr>pending := pending w1 - {k}\<rparr>)
               | None \<Rightarrow>
                   (case fetchFn w1 of
                      (Inr v, w2) \<Rightarrow>
                        (Resolved v,
                         w2\<lparr>store := (store w2)
                               (k \<mapsto>
                                  (v, clock w2 + (case maxAge of
                                                    Some age \<Rightarrow> age
                                                  | None \<Rightarrow> defaultTtl category))),
                            pending := pending w2 - {k}\<rparr>)
                    | (Inl e, w2) \<Rightarrow> (Rejected e, w2\<lparr>pending := pending w2 - {k}\<rparr>))))"

text \<open>Line 212: \<^verbatim>\<open>const cacheKey = `${username}:complete:${maxPages}`\<close>.\<close>

definition cacheKey :: "string \<Rightarrow> int \<Rightarrow> string" where
  "cacheKey username maxPages = username @ '':complete:'' @ toString maxPages"

text \<open>
  \<^verbatim>\<open>getCompleteCollection\<close>, lines 204 to 259: the category, the cache key, the fetch
  function and the 45 minutes. What the fetch function logs stays on the console.
\<close>

definition getCompleteCollection ::
  "(string \<Rightarrow> nat) \<Rightarrow> string
    \<Rightarrow> ('e, (discogs_collection_response, 'z) smart_cache_scheme) searchCollection \<Rightarrow> int
    \<Rightarrow> (discogs_collection_response, 'z) smart_cache_scheme
    \<Rightarrow> ('e, discogs_collection_response) settled
        \<times> (discogs_collection_response, 'z) smart_cache_scheme" where
  "getCompleteCollection defaultTtl username search maxPages w =
     getOrFetch defaultTtl ''collections'' (cacheKey username maxPages)
       (\<lambda>w. case fetchAllPages username search maxPages w of (r, console, w') \<Rightarrow> (r, w'))
       (Some (45 * 60)) w"

text \<open>A cache next to the journal of an instrumented collaborator, which sees and
  changes the journal only.\<close>

record 'v journalled = "'v smart_cache" +
  journal :: "event list"

definition viaJournal ::
  "('e, event list) searchCollection \<Rightarrow> ('e, ('v, 'z) journalled_scheme) searchCollection" where
  "viaJournal search p perPage w =
     (case search p perPage (journal w) of (r, tr) \<Rightarrow> (r, w\<lparr>journal := tr\<rparr>))"

text \<open>A table of default times to live that gives every category one hour, for the
  examples: the call under study overrides it.\<close>

definition hourly :: "string \<Rightarrow> nat" where
  "hourly category = 3600"

text \<open>A cache that holds nothing, at time 0, with an empty journal.\<close>

definition coldStart :: "discogs_collection_response journalled" where
  "coldStart = \<lparr>store = Map.empty, pending = {}, clock = 0, journal = []\<rparr>"

section \<open>SmartCache under concurrent callers\<close>

text \<open>
  Modelled from the spec: a pending request of the registry of \<^verbatim>\<open>SmartCache\<close>
  (\<^verbatim>\<open>src/utils/cache.ts\<close>, not among the source files). A pending request is looking its key
  up in the store or has invoked the fetch function; it knows the time to live its
  result is stored with, and the callers that await its future.
\<close>

datatype phase = LookingUp | Fetching

record pending_request =
  phase :: phase
  ttl :: nat
  callers :: "nat list"

text \<open>
  Modelled from the spec: one instance of the cache under concurrent callers: the
  cache, with the pending request of each key of the registry, the keys the fetch
  function has been invoked for, in the order of the invocations, and what each caller
  has received.
\<close>

record ('e, 'v) dispatcher = "'v smart_cache" +
  requests :: "string \<rightharpoonup> pending_request"
  fetched :: "string list"
  received :: "(nat \<times> ('e + 'v)) list"

text \<open>
  Modelled from the spec: what happens to an instance. A caller, named by a number,
  calls \<^verbatim>\<open>getOrFetch\<close> with a category, a key and \<^verbatim>\<open>options.maxAge\<close>; the store replies to the
  lookup of a full key; the fetch invoked for a full key settles, with a value or an
  error. These are the suspension points of the spec: between two of them nothing else
  runs.
\<close>

datatype ('e, 'v) occurrence =
  Calls nat string string "nat option" | StoreReplies string | FetchSettles string "'e + 'v"

text \<open>Modelled from the spec: a future settles: its entry leaves the registry, and every
  caller that awaits it receives the result.\<close>

definition deliver :: "string \<Rightarrow> 'e + 'v \<Rightarrow> ('e, 'v) dispatcher \<Rightarrow> ('e, 'v) dispatcher" where
  "deliver k r s =
     s\<lparr>pending := pending s - {k},
       requests := (requests s)(k := None),
       received := received s @ map (\<lambda>c. (c, r)) (case requests s k of None \<Rightarrow> [] | Some q \<Rightarrow> callers q)\<rparr>"

text \<open>
  Modelled from the spec: the algorithm of \<^verbatim>\<open>getOrFetch\<close>, steps 1 to 5, one occurrence
  at a time. A call joins the pending request of its full key, or registers one and
  starts the lookup (steps 2 and 3). A reply of the store resolves the future from a
  fresh entry, or invokes the fetch function (step 3). A fetch that settles with a value
  stores it, and in both cases the future settles (steps 4 and 5). An occurrence for
  which nothing is pending changes nothing.
\<close>

fun step :: "(string \<Rightarrow> nat) \<Rightarrow> ('e, 'v) dispatcher \<Rightarrow> ('e, 'v) occurrence \<Rightarrow> ('e, 'v) dispatcher" where
  "step defaultTtl s (Calls c category key maxAge) =
     (let k = fullKey category key
      in if k \<in> pending s
         then s\<lparr>requests := (requests s)
                 (k := map_option (\<lambda>q. q\<lparr>callers := callers q @ [c]\<rparr>) (requests s k))\<rparr>
         else s\<lparr>pending := insert k (pending s),
                requests := (requests s)
                  (k \<mapsto> \<lparr>phase = LookingUp,
                          ttl = (case maxAge of Some age \<Rightarrow> age | None \<Rightarrow> defaultTtl category),
                          callers = [c]\<rparr>)\<rparr>)"
| "step defaultTtl s (StoreReplies k) =
     (case requests s k of
        None \<Rightarrow> s
      | Some q \<Rightarrow>
          if phase q = LookingUp
          then (case cached s k of
                  Some v \<Rightarrow> deliver k (Inr v) s
                | None \<Rightarrow> s\<lparr>requests := (requests s)(k \<mapsto> q\<lparr>phase := Fetching\<rparr>),
                             fetched := fetched s @ [k]\<rparr>)
          else s)"
| "step defaultTtl s (FetchSettles k r) =
     (case requests s k of
        None \<Rightarrow> s
      | Some q \<Rightarrow>
          if phase q = Fetching
          then (case r of
                  Inl e \<Rightarrow> deliver k r s
                | Inr v \<Rightarrow> deliver k r (s\<lparr>store := (store s)(k \<mapsto> (v, clock s + ttl q))\<rparr>))
          else s)"

text \<open>A schedule of occurrences, from first to last.\<close>

definition run :: "(string \<Rightarrow> nat) \<Rightarrow> ('e, 'v) dispatcher \<Rightarrow> ('e, 'v) occurrence list \<Rightarrow> ('e, 'v) dispatcher" where
  "run defaultTtl s evs = foldl (step defaultTtl) s evs"

text \<open>The future of a full key has not settled: at the start of a schedule, and after each
  of its occurrences.\<close>

fun inFlightThroughout ::
  "(string \<Rightarrow> nat) \<Rightarrow> string \<Rightarrow> ('e, 'v) dispatcher \<Rightarrow> ('e, 'v) occurrence list \<Rightarrow> bool" where
  "inFlightThroughout defaultTtl k s [] = (k \<in> pending s)"
| "inFlightThroughout defaultTtl k s (ev # evs) =
     (k \<in> pending s \<and> inFlightThroughout defaultTtl k (step defaultTtl s ev) evs)"

text \<open>The callers that call with a full key during a schedule.\<close>

fun joiners :: "string \<Rightarrow> ('e, 'v) occurrence list \<Rightarrow> nat list" where
  "joiners k [] = []"
| "joiners k (Calls c category key maxAge # evs) =
     (if fullKey category key = k then c # joiners k evs else joiners k evs)"
| "joiners k (ev # evs) = joiners k evs"

text \<open>The store replies to the lookup of a full key during a schedule.\<close>

definition lookedUp :: "string \<Rightarrow> ('e, 'v) occurrence list \<Rightarrow> bool" where
  "lookedUp k evs \<longleftrightarrow> StoreReplies k \<in> set evs"

text \<open>How many times the fetch function has been invoked for a full key.\<close>

definition invocations :: "string \<Rightarrow> ('e, 'v) dispatcher \<Rightarrow> nat" where
  "invocations k s = count_list (fetched s) k"

text \<open>An instance that holds nothing, and one that holds a fresh value for one key.\<close>

definition coldDispatcher :: "(string, string) dispatcher" where
  "coldDispatcher =
     \<lparr>store = Map.empty, pending = {}, clock = 0,
      requests = Map.empty, fetched = [], received = []\<rparr>"

definition warmDispatcher :: "(string, string) dispatcher" where
  "warmDispatcher =
     \<lparr>store = [''collections:alice'' \<mapsto> (''stored'', 2700)], pending = {}, clock = 0,
      requests = Map.empty, fetched = [], received = []\<rparr>"

section \<open>Properties of computeStatsFromReleases\<close>

subsection \<open>Counting under a key that is no inherited property\<close>

lemma proto_is_inherited: "''__proto__'' \<in> set prototypeNames"
  by (simp add: prototypeNames_def)

lemma increment_elsewhere: "x \<noteq> k \<Longrightarrow> increment m x k = m k"
  by (simp add: increment_def setProperty_def)

lemma increment_here:
  assumes "k \<notin> set prototypeNames" and "m k = map_option Number v"
  shows "increment m k k = Some (Number ((case v of None \<Rightarrow> 0 | Some c \<Rightarrow> c) + 1))"
proof -
  from assms(1) have "k \<noteq> ''__proto__''" using proto_is_inherited by auto
  with assms show ?thesis
    by (cases v) (simp_all add: increment_def setProperty_def getProperty_def orZero_def)
qed

lemma increment_fold:
  assumes "k \<in> set ks \<longrightarrow> k \<notin> set prototypeNames" and "m k = map_option Number v"
  shows "foldl increment m ks k =
     map_option Number
       (if count_list ks k = 0 then v
        else Some ((case v of None \<Rightarrow> 0 | Some c \<Rightarrow> c) + count_list ks k))"
  using assms
proof (induction ks arbitrary: m v)
  case Nil
  then show ?case by simp
next
  case (Cons x ks)
  show ?case
  proof (cases "x = k")
    case True
    with Cons.prems have plain: "k \<notin> set prototypeNames" by simp
    from increment_here [of k m v] plain Cons.prems(2) True
    have now: "increment m x k = map_option Number (Some ((case v of None \<Rightarrow> 0 | Some c \<Rightarrow> c) + 1))"
      by simp
    have rest: "k \<in> set ks \<longrightarrow> k \<notin> set prototypeNames" using plain by simp
    from Cons.IH [of "increment m x" "Some ((case v of None \<Rightarrow> 0 | Some c \<Rightarrow> c) + 1)"] rest now True
    show ?thesis by simp
  next
    case False
    then have now: "increment m x k = map_option Number v"
      using Cons.prems(2) by (simp add: increment_elsewhere)
    from Cons.prems(1) have rest: "k \<in> set ks \<longrightarrow> k \<notin> set prototypeNames" by simp
    from Cons.IH [of "increment m x" v] rest now False show ?thesis by simp
  qed
qed

lemma counted_fold:
  assumes "k \<in> set ys \<longrightarrow> k \<notin> set prototypeNames" and "m k = counted (tally xs) k"
  shows "foldl increment m ys k = counted (tally (xs @ ys)) k"
proof -
  from assms(2) have "m k = map_option Number (tally xs k)" by (simp add: counted_def)
  from increment_fold [of k ys m "tally xs k"] assms(1) this show ?thesis
    by (simp add: counted_def tally_def)
qed

lemma decadeKey_plain: "decadeKey y \<notin> set prototypeNames"
proof
  assume "decadeKey y \<in> set prototypeNames"
  then have "last (decadeKey y) \<noteq> CHR ''s''"
    by (auto simp: prototypeNames_def)
  then show False by (simp add: decadeKey_def)
qed

lemma counted_decade:
  assumes "m = counted (tally xs)"
  shows "increment m (decadeKey y) = counted (tally (xs @ [decadeKey y]))"
proof (rule ext)
  fix k
  have "k \<in> set [decadeKey y] \<longrightarrow> k \<notin> set prototypeNames"
    using decadeKey_plain by simp
  from counted_fold [of k "[decadeKey y]" m xs] this assms
  show "increment m (decadeKey y) k = counted (tally (xs @ [decadeKey y])) k" by simp
qed

subsection \<open>What the pass keeps\<close>

lemma pass_keeps:
  assumes "\<And>seen a item. I seen a \<Longrightarrow> I (seen @ [item]) (visit a item)" and "I seen a"
  shows "I (seen @ rs) (foldl visit a rs)"
  using assms(2)
proof (induction rs arbitrary: seen a)
  case Nil
  then show ?case by simp
next
  case (Cons item rs)
  from Cons.IH [OF assms(1) [OF Cons.prems, of item]] show ?case by simp
qed

lemma tracks_visit: "tracks rs a \<Longrightarrow> tracks (rs @ [item]) (visit a item)"
  by (simp add: tracks_def visit_def Let_def rated_def)

lemma tracks_final:
  "tracks rs (foldl visit \<lparr>stats = initialStats rs, totalRating = 0, ratedCount = 0\<rparr> rs)"
proof -
  have "tracks [] \<lparr>stats = initialStats rs, totalRating = 0, ratedCount = 0\<rparr>"
    by (simp add: tracks_def rated_def)
  from pass_keeps [of tracks, OF tracks_visit this, of rs] show ?thesis by simp
qed

lemma visit_breakdowns:
  "genreBreakdown (stats (visit a item))
     = foldl increment (genreBreakdown (stats a)) (orEmpty (genres (basic_information item))) \<and>
   formatBreakdown (stats (visit a item))
     = foldl increment (formatBreakdown (stats a))
         (map name (orEmpty (formats (basic_information item)))) \<and>
   labelBreakdown (stats (visit a item))
     = foldl increment (labelBreakdown (stats a))
         (map name (orEmpty (labels (basic_information item)))) \<and>
   decadeBreakdown (stats (visit a item))
     = (case year (basic_information item) of
          None \<Rightarrow> decadeBreakdown (stats a)
        | Some y \<Rightarrow> if y \<noteq> 0 then increment (decadeBreakdown (stats a)) (decadeKey y)
                    else decadeBreakdown (stats a))"
  by (simp add: visit_def Let_def split: option.splits)

lemma tallies_visit:
  assumes "k \<notin> set prototypeNames" and "tallies k rs a"
  shows "tallies k (rs @ [item]) (visit a item)"
proof -
  let ?info = "basic_information item"
  from assms(2) have before:
    "genreBreakdown (stats a) k = counted (tally (genreTags rs)) k"
    "formatBreakdown (stats a) k = counted (tally (formatTags rs)) k"
    "labelBreakdown (stats a) k = counted (tally (labelTags rs)) k"
    by (simp_all add: tallies_def)
  have "foldl increment (genreBreakdown (stats a)) (orEmpty (genres ?info)) k
      = counted (tally (genreTags rs @ orEmpty (genres ?info))) k"
    using counted_fold [of k "orEmpty (genres ?info)" "genreBreakdown (stats a)" "genreTags rs"]
      assms(1) before(1) by blast
  moreover have "foldl increment (formatBreakdown (stats a)) (map name (orEmpty (formats ?info))) k
      = counted (tally (formatTags rs @ map name (orEmpty (formats ?info)))) k"
    using counted_fold [of k "map name (orEmpty (formats ?info))" "formatBreakdown (stats a)"
        "formatTags rs"] assms(1) before(2) by blast
  moreover have "foldl increment (labelBreakdown (stats a)) (map name (orEmpty (labels ?info))) k
      = counted (tally (labelTags rs @ map name (orEmpty (labels ?info)))) k"
    using counted_fold [of k "map name (orEmpty (labels ?info))" "labelBreakdown (stats a)"
        "labelTags rs"] assms(1) before(3) by blast
  ultimately show ?thesis
    by (simp add: tallies_def visit_breakdowns genreTags_def formatTags_def labelTags_def)
qed

lemma tallies_final:
  assumes "k \<notin> set prototypeNames"
  shows "tallies k rs (foldl visit \<lparr>stats = initialStats rs, totalRating = 0, ratedCount = 0\<rparr> rs)"
proof -
  have "tallies k [] \<lparr>stats = initialStats rs, totalRating = 0, ratedCount = 0\<rparr>"
    by (simp add: tallies_def initialStats_def genreTags_def formatTags_def labelTags_def
        counted_def tally_def)
  from pass_keeps [of "tallies k", OF tallies_visit [OF assms] this, of rs] show ?thesis by simp
qed

lemma decades_visit: "decades rs a \<Longrightarrow> decades (rs @ [item]) (visit a item)"
  by (simp add: decades_def visit_breakdowns decadeTags_def decadeOf_def counted_decade
      split: option.splits)

lemma decades_final:
  "decades rs (foldl visit \<lparr>stats = initialStats rs, totalRating = 0, ratedCount = 0\<rparr> rs)"
proof -
  have "decades [] \<lparr>stats = initialStats rs, totalRating = 0, ratedCount = 0\<rparr>"
    by (simp add: decades_def initialStats_def decadeTags_def counted_def tally_def)
  from pass_keeps [of decades, OF decades_visit this, of rs] show ?thesis by simp
qed

lemma visit_keeps: "totalReleases (stats (visit a item)) = totalReleases (stats a)
    \<and> totalValue (stats (visit a item)) = totalValue (stats a)"
  by (simp add: visit_def Let_def split: option.splits)

lemma foldl_visit_keeps: "totalReleases (stats (foldl visit a rs)) = totalReleases (stats a)
    \<and> totalValue (stats (foldl visit a rs)) = totalValue (stats a)"
  by (induction rs arbitrary: a) (simp_all add: visit_keeps)

subsection \<open>Totals and ratings\<close>

text \<open>
  Claim C7. For every item list, \<^verbatim>\<open>totalReleases\<close> is the length of the list,
  \<^verbatim>\<open>ratedReleases\<close> is the number of items whose rating is strictly positive, and
  \<^verbatim>\<open>averageRating\<close> is the sum of those positive ratings divided by their number, or 0
  when no item has a positive rating. On the two items of the stats example the totals
  are 2 items, average 4.5 and 2 rated items.
\<close>

theorem computeStats_totals:
  "totalReleases (computeStatsFromReleases rs) = length rs \<and>
   ratedReleases (computeStatsFromReleases rs) = length (rated rs) \<and>
   averageRating (computeStatsFromReleases rs) =
     (if length (rated rs) = 0 then 0
      else of_int (sum_list (map rating (rated rs))) / of_nat (length (rated rs))) \<and>
   totalReleases (computeStatsFromReleases [abbeyRoad, darkSide]) = 2 \<and>
   averageRating (computeStatsFromReleases [abbeyRoad, darkSide]) = 4.5 \<and>
   ratedReleases (computeStatsFromReleases [abbeyRoad, darkSide]) = 2"
proof -
  let ?final = "foldl visit \<lparr>stats = initialStats rs, totalRating = 0, ratedCount = 0\<rparr> rs"
  have t: "tracks rs ?final" by (rule tracks_final)
  have k: "totalReleases (stats ?final) = length rs"
    using foldl_visit_keeps [of "\<lparr>stats = initialStats rs, totalRating = 0, ratedCount = 0\<rparr>" rs]
    by (simp add: initialStats_def)
  have general: "totalReleases (computeStatsFromReleases rs) = length rs \<and>
    ratedReleases (computeStatsFromReleases rs) = length (rated rs) \<and>
    averageRating (computeStatsFromReleases rs) =
     (if length (rated rs) = 0 then 0
      else of_int (sum_list (map rating (rated rs))) / of_nat (length (rated rs)))"
    using t k by (simp add: computeStatsFromReleases_def Let_def tracks_def)
  have example: "totalReleases (computeStatsFromReleases [abbeyRoad, darkSide]) = 2 \<and>
   averageRating (computeStatsFromReleases [abbeyRoad, darkSide]) = 4.5 \<and>
   ratedReleases (computeStatsFromReleases [abbeyRoad, darkSide]) = 2"
    by (simp add: computeStatsFromReleases_def Let_def visit_def initialStats_def
        abbeyRoad_def darkSide_def)
  from general example show ?thesis by simp
qed

text \<open>The same at a list with one rated and one unrated item.\<close>

theorem computeStats_totals_witness:
  "totalReleases (computeStatsFromReleases [abbeyRoad, undated]) = 2 \<and>
   ratedReleases (computeStatsFromReleases [abbeyRoad, undated]) = 1 \<and>
   averageRating (computeStatsFromReleases [abbeyRoad, undated]) = 5"
  using computeStats_totals [of "[abbeyRoad, undated]"]
  by (simp add: rated_def abbeyRoad_def undated_def)

subsection \<open>Breakdowns\<close>

text \<open>
  Claim C8, as amended. For every item list and every tag that does not name a property
  inherited from \<^verbatim>\<open>Object.prototype\<close>, the genre, format and label breakdowns hold under
  that tag the number of its occurrences over all items, an item counting once for each
  tag it carries, and nothing if it never occurs. The decade breakdown counts, for
  every item whose year is present and not zero, the key made of
  \<open>floor (year / 10) * 10\<close> followed by \<^verbatim>\<open>s\<close>; an item whose year is absent or zero
  increments no decade. What a breakdown holds under a tag that names an inherited
  property is not part of the statement.
\<close>

theorem computeStats_breakdowns:
  "(k \<notin> set prototypeNames \<longrightarrow>
      genreBreakdown (computeStatsFromReleases rs) k = counted (tally (genreTags rs)) k \<and>
      formatBreakdown (computeStatsFromReleases rs) k = counted (tally (formatTags rs)) k \<and>
      labelBreakdown (computeStatsFromReleases rs) k = counted (tally (labelTags rs)) k) \<and>
   decadeBreakdown (computeStatsFromReleases rs) = counted (tally (decadeTags rs))"
  using tallies_final [of k rs] decades_final [of rs]
  by (simp add: computeStatsFromReleases_def Let_def tallies_def decades_def)

text \<open>The breakdowns of the stats example.\<close>

theorem computeStats_breakdowns_witness:
  "genreBreakdown (computeStatsFromReleases [abbeyRoad, darkSide]) ''Rock'' = Some (Number 2) \<and>
   formatBreakdown (computeStatsFromReleases [abbeyRoad, darkSide]) ''Vinyl'' = Some (Number 2) \<and>
   labelBreakdown (computeStatsFromReleases [abbeyRoad, darkSide]) ''Harvest'' = None \<and>
   decadeBreakdown (computeStatsFromReleases [abbeyRoad, darkSide]) ''1960s'' = Some (Number 1) \<and>
   decadeBreakdown (computeStatsFromReleases [abbeyRoad, darkSide]) ''1970s'' = Some (Number 1)"
  using computeStats_breakdowns [of "''Rock''" "[abbeyRoad, darkSide]"]
    computeStats_breakdowns [of "''Vinyl''" "[abbeyRoad, darkSide]"]
    computeStats_breakdowns [of "''Harvest''" "[abbeyRoad, darkSide]"]
  by (simp add: prototypeNames_def counted_def tally_def genreTags_def formatTags_def
      labelTags_def decadeTags_def decadeOf_def decadeKey_def toString_def orEmpty_def
      abbeyRoad_def darkSide_def)

text \<open>
  An item whose year is 0 passes the guard \<^verbatim>\<open>if (release.year)\<close> by, so its decade
  \<^verbatim>\<open>0s\<close> is never counted: the decade of every item is not incremented.
\<close>

theorem decade_of_undated_counterexample:
  "year (basic_information undated) = Some 0 \<and>
   tally [decadeKey 0] (decadeKey 0) = Some 1 \<and>
   decadeBreakdown (computeStatsFromReleases [undated]) (decadeKey 0) = None"
  by (simp add: computeStatsFromReleases_def Let_def visit_def initialStats_def undated_def
      tally_def)

text \<open>
  Under a tag that names an inherited property the object does not count: the read
  finds the inherited value, \<^verbatim>\<open>+\<close> concatenates, and a string is stored under
  \<^verbatim>\<open>constructor\<close> and nothing under \<^verbatim>\<open>__proto__\<close>, while the other tags of the same item are
  counted.
\<close>

lemma inherited_tags:
  "genreBreakdown (computeStatsFromReleases [oddlyTagged]) ''constructor''
     = Some (Text ''function Object() { [native code] }1'') \<and>
   genreBreakdown (computeStatsFromReleases [oddlyTagged]) ''__proto__'' = None \<and>
   genreBreakdown (computeStatsFromReleases [oddlyTagged]) ''Rock'' = Some (Number 1)"
  by (simp add: computeStatsFromReleases_def Let_def visit_def initialStats_def oddlyTagged_def
      orEmpty_def increment_def setProperty_def getProperty_def orZero_def inherited_def
      prototypeNames_def)

subsection \<open>Total value\<close>

text \<open>
  Claim C10. For every item list, empty or not, \<^verbatim>\<open>totalValue\<close> of the returned
  record is 0: the field is set when the record is created and no iteration writes it.
\<close>

theorem computeStats_totalValue: "totalValue (computeStatsFromReleases rs) = 0"
  using foldl_visit_keeps [of "\<lparr>stats = initialStats rs, totalRating = 0, ratedCount = 0\<rparr>" rs]
  by (simp add: computeStatsFromReleases_def Let_def initialStats_def)

section \<open>Properties of the fetch function\<close>

subsection \<open>Journals\<close>

lemma exchanges_step: "i \<le> j \<Longrightarrow> exchanges i j = exchange i @ exchanges (i + 1) j"
  by (simp add: exchanges_def upto_rec1 [of i j])

lemma exchanges_none: "j < i \<Longrightarrow> exchanges i j = []"
  by (simp add: exchanges_def)

lemma exchanges_one: "exchanges i i = exchange i"
  by (simp add: exchanges_def)

lemma exchanges_last: "i \<le> j \<Longrightarrow> exchanges i j = exchanges i (j - 1) @ exchange j"
  by (simp add: exchanges_def upto_rec2 [of i j])

lemma inOrder_exchanges: "inOrder (i - 1) None (exchanges i j)"
proof (induction "nat (j + 1 - i)" arbitrary: i)
  case 0
  then show ?case by (simp add: exchanges_none)
next
  case (Suc n)
  then have le: "i \<le> j" and n: "n = nat (j + 1 - (i + 1))" by linarith+
  from Suc.hyps(1) [OF n] show ?case
    by (simp add: exchanges_step [OF le] exchange_def)
qed

lemma requestedPages_exchanges: "requestedPages (exchanges i j) = [i..j]"
proof (induction "nat (j + 1 - i)" arbitrary: i)
  case 0
  then show ?case by (simp add: exchanges_none requestedPages_def)
next
  case (Suc n)
  then have le: "i \<le> j" and n: "n = nat (j + 1 - (i + 1))" by linarith+
  from Suc.hyps(1) [OF n] show ?case
    by (simp add: exchanges_step [OF le] exchange_def requestedPages_def upto_rec1 [OF le])
qed

subsection \<open>One iteration of the loop\<close>

lemma fetchPages_fail:
  "search cur 100 w = (Inl e, w') \<Longrightarrow> fetchPages search maxPages acc cur w = (Inl e, w')"
  by (simp add: fetchPages.simps [of search maxPages acc cur w])

lemma fetchPages_more:
  "search cur 100 w = (Inr r, w') \<Longrightarrow> cur + 1 \<le> min (pages (pagination r)) maxPages \<Longrightarrow>
   fetchPages search maxPages acc cur w = fetchPages search maxPages (acc @ releases r) (cur + 1) w'"
  by (simp add: fetchPages.simps [of search maxPages acc cur w] Let_def)

lemma fetchPages_last:
  "search cur 100 w = (Inr r, w') \<Longrightarrow> \<not> cur + 1 \<le> min (pages (pagination r)) maxPages \<Longrightarrow>
   fetchPages search maxPages acc cur w
     = (Inr (acc @ releases r, min (pages (pagination r)) maxPages), w')"
  by (auto simp: fetchPages.simps [of search maxPages acc cur w] Let_def)

lemma observing_exchange: "observing src cur 100 tr = (src tr cur, tr @ exchange cur)"
  by (simp add: observing_def exchange_def)

subsection \<open>What the fetch function leaves\<close>

lemma fetchAllPages_world:
  "snd (snd (fetchAllPages username search maxPages w)) = snd (fetchPages search maxPages [] 1 w)"
  by (simp add: fetchAllPages_def Let_def split: prod.splits sum.splits)

subsection \<open>Runs over a source\<close>

text \<open>While the pages before \<open>k\<close> are served and ask for more, the run reaches page \<open>k\<close>.\<close>

lemma fetchPages_run:
  assumes "cur \<le> k"
    and "\<forall>p. cur \<le> p \<and> p < k \<longrightarrow> (\<exists>r. src p = Inr r \<and> p + 1 \<le> min (pages (pagination r)) maxPages)"
  shows "fetchPages (observed src) maxPages acc cur tr
    = fetchPages (observed src) maxPages (acc @ concat (map (releasesOf src) [cur..k - 1])) k
        (tr @ exchanges cur (k - 1))"
  using assms
proof (induction "nat (k - cur)" arbitrary: cur acc tr)
  case 0
  then have "k = cur" by simp
  then show ?case by (simp add: exchanges_none)
next
  case (Suc n)
  then have lt: "cur < k" and n: "n = nat (k - (cur + 1))" by linarith+
  with Suc.prems obtain r where r: "src cur = Inr r" "cur + 1 \<le> min (pages (pagination r)) maxPages"
    by auto
  have step: "fetchPages (observed src) maxPages acc cur tr
     = fetchPages (observed src) maxPages (acc @ releases r) (cur + 1) (tr @ exchange cur)"
    using r by (simp add: fetchPages_more observed_def observing_exchange)
  have rest: "fetchPages (observed src) maxPages (acc @ releases r) (cur + 1) (tr @ exchange cur)
     = fetchPages (observed src) maxPages
         ((acc @ releases r) @ concat (map (releasesOf src) [cur + 1..k - 1])) k
         ((tr @ exchange cur) @ exchanges (cur + 1) (k - 1))"
    using Suc.hyps(1) [OF n, of "acc @ releases r" "tr @ exchange cur"] Suc.prems lt by simp
  have le: "cur \<le> k - 1" using lt by simp
  show ?case
    using r(1) by (simp add: step rest exchanges_step [OF le] upto_rec1 [OF le] releasesOf_def)
qed


lemma reportsTotal_page:
  "reportsTotal src P k \<Longrightarrow> 1 \<le> p \<Longrightarrow> p \<le> k \<Longrightarrow> \<exists>r. src p = Inr r \<and> pages (pagination r) = P"
proof -
  assume "reportsTotal src P k" "1 \<le> p" "p \<le> k"
  then have "case src p of Inl e \<Rightarrow> False | Inr r \<Rightarrow> pages (pagination r) = P"
    by (simp add: reportsTotal_def list_all_iff)
  then show ?thesis by (cases "src p") simp_all
qed

lemma reportsTotal_less: "reportsTotal src P k \<Longrightarrow> j \<le> k \<Longrightarrow> reportsTotal src P j"
  by (auto simp: reportsTotal_def list_all_iff)

text \<open>The run over a source that reports P pages: it ends after page min P maxPages.\<close>

lemma fetchPages_complete:
  assumes m: "1 \<le> maxPages" and p: "1 \<le> P" and rep: "reportsTotal src P (min P maxPages)"
  shows "fetchPages (observed src) maxPages [] 1 tr
    = (Inr (concat (map (releasesOf src) [1..min P maxPages]), min P maxPages),
       tr @ exchanges 1 (min P maxPages))"
proof -
  let ?K = "min P maxPages"
  have K: "1 \<le> ?K" using m p by simp
  have before: "\<forall>q. 1 \<le> q \<and> q < ?K \<longrightarrow>
      (\<exists>r. src q = Inr r \<and> q + 1 \<le> min (pages (pagination r)) maxPages)"
  proof (intro allI impI)
    fix q assume q: "1 \<le> q \<and> q < ?K"
    then obtain r where "src q = Inr r" "pages (pagination r) = P"
      using reportsTotal_page [OF rep, of q] by auto
    with q show "\<exists>r. src q = Inr r \<and> q + 1 \<le> min (pages (pagination r)) maxPages" by auto
  qed
  obtain r where r: "src ?K = Inr r" "pages (pagination r) = P"
    using reportsTotal_page [OF rep, of ?K] K by auto
  let ?before = "concat (map (releasesOf src) [1..?K - 1])"
  have run: "fetchPages (observed src) maxPages [] 1 tr
    = fetchPages (observed src) maxPages ?before ?K (tr @ exchanges 1 (?K - 1))"
    using fetchPages_run [OF K before, of "[]" tr] by simp
  have "observed src ?K 100 (tr @ exchanges 1 (?K - 1))
      = (Inr r, (tr @ exchanges 1 (?K - 1)) @ exchange ?K)"
    by (simp add: observed_def observing_exchange r)
  moreover have "\<not> ?K + 1 \<le> min (pages (pagination r)) maxPages"
    by (simp add: r)
  ultimately have last: "fetchPages (observed src) maxPages ?before ?K (tr @ exchanges 1 (?K - 1))
     = (Inr (?before @ releases r, min (pages (pagination r)) maxPages),
        (tr @ exchanges 1 (?K - 1)) @ exchange ?K)"
    by (rule fetchPages_last)
  have items: "?before @ releases r = concat (map (releasesOf src) [1..?K])"
    using r(1) by (simp add: upto_rec2 [OF K] releasesOf_def)
  have journal: "(tr @ exchanges 1 (?K - 1)) @ exchange ?K = tr @ exchanges 1 ?K"
    by (simp add: exchanges_last [OF K])
  show ?thesis
    unfolding run last items journal by (simp add: r(2))
qed

text \<open>The run over any source, described by the last page it asks for.\<close>

lemma fetchPages_outcome:
  "\<exists>k. cur \<le> k \<and>
     snd (fetchPages (observed src) maxPages acc cur tr) = tr @ exchanges cur k \<and>
     fst (fetchPages (observed src) maxPages acc cur tr) =
       (case src k of
          Inl e \<Rightarrow> Inl e
        | Inr r \<Rightarrow> Inr (acc @ concat (map (releasesOf src) [cur..k]),
                       min (pages (pagination r)) maxPages))"
proof (induction "nat (maxPages - cur)" arbitrary: cur acc tr rule: less_induct)
  case less
  let ?run = "fetchPages (observed src) maxPages acc cur tr"
  have call: "observed src cur 100 tr = (src cur, tr @ exchange cur)"
    by (simp add: observed_def observing_exchange)
  show ?case
  proof (cases "src cur")
    case (Inl e)
    with call have "?run = (Inl e, tr @ exchanges cur cur)"
      by (simp add: fetchPages_fail exchanges_one)
    with Inl show ?thesis by (intro exI [of _ cur]) simp
  next
    case (Inr r)
    show ?thesis
    proof (cases "cur + 1 \<le> min (pages (pagination r)) maxPages")
      case True
      then have "nat (maxPages - (cur + 1)) < nat (maxPages - cur)" by linarith
      from less [OF this, of "acc @ releases r" "tr @ exchange cur"]
      obtain k where k: "cur + 1 \<le> k"
        "snd (fetchPages (observed src) maxPages (acc @ releases r) (cur + 1) (tr @ exchange cur))
          = (tr @ exchange cur) @ exchanges (cur + 1) k"
        "fst (fetchPages (observed src) maxPages (acc @ releases r) (cur + 1) (tr @ exchange cur))
          = (case src k of
               Inl e \<Rightarrow> Inl e
             | Inr r' \<Rightarrow> Inr ((acc @ releases r) @ concat (map (releasesOf src) [cur + 1..k]),
                            min (pages (pagination r')) maxPages))"
        by blast
      from k(1) have le: "cur \<le> k" by simp
      from call Inr True
      have step: "?run
        = fetchPages (observed src) maxPages (acc @ releases r) (cur + 1) (tr @ exchange cur)"
        by (simp add: fetchPages_more)
      have items: "(acc @ releases r) @ concat (map (releasesOf src) [cur + 1..k])
        = acc @ concat (map (releasesOf src) [cur..k])"
        using Inr by (simp add: upto_rec1 [OF le] releasesOf_def)
      have journal: "(tr @ exchange cur) @ exchanges (cur + 1) k = tr @ exchanges cur k"
        by (simp add: exchanges_step [OF le])
      show ?thesis
        using le k(2,3) unfolding step items journal by (intro exI [of _ k]) simp
    next
      case False
      with call Inr
      have "?run = (Inr (acc @ releases r, min (pages (pagination r)) maxPages),
                    tr @ exchanges cur cur)"
        by (simp add: fetchPages_last exchanges_one)
      with Inr show ?thesis by (intro exI [of _ cur]) (simp add: releasesOf_def)
    qed
  qed
qed

lemma fetchAllPages_value:
  "fst (fetchAllPages username search maxPages w) =
     (case fst (fetchPages search maxPages [] 1 w) of
        Inl e \<Rightarrow> Inl e
      | Inr (allReleases, totalPages) \<Rightarrow> Inr (aggregate totalPages allReleases))"
  by (simp add: fetchAllPages_def Let_def split: prod.splits sum.splits)

subsection \<open>Pages fetched and items returned\<close>

text \<open>
  Claim C3. For every user name, every cap \<open>maxPages \<ge> 1\<close> and every source that
  reports \<open>P \<ge> 1\<close> total pages, the fetch function requests the pages 1, 2, ...,
  \<open>min P maxPages\<close> in this order, that is exactly \<open>min P maxPages\<close> page fetches, and
  the items of the value it returns are the items of these pages, concatenated in page
  order.
\<close>

theorem fetchAllPages_pages:
  assumes "1 \<le> maxPages" and "1 \<le> P" and "reportsTotal src P (min P maxPages)"
  shows "requestedPages (snd (snd (fetchAllPages username (observed src) maxPages [])))
           = [1..min P maxPages] \<and>
         int (length (requestedPages (snd (snd (fetchAllPages username (observed src) maxPages [])))))
           = min P maxPages \<and>
         (\<exists>agg. fst (fetchAllPages username (observed src) maxPages []) = Inr agg \<and>
                releases agg = concat (map (releasesOf src) [1..min P maxPages]))"
  using fetchPages_complete [OF assms, of "[]"] assms(1,2)
  by (simp add: fetchAllPages_world fetchAllPages_value requestedPages_exchanges aggregate_def)

text \<open>Two pages fetched of the five of a 500-item collection.\<close>

lemma one_to_two: "[1..2] = [1, 2]"
  by (simp add: upto_rec1)

lemma fivePages_reports: "reportsTotal fivePages 5 2"
  by (simp add: reportsTotal_def fivePages_def fullPage_def one_to_two)

theorem fetchAllPages_pages_witness:
  "requestedPages (snd (snd (fetchAllPages ''alice'' (observed fivePages) 2 []))) = [1, 2] \<and>
   int (length (requestedPages (snd (snd (fetchAllPages ''alice'' (observed fivePages) 2 []))))) = 2 \<and>
   (\<exists>agg. fst (fetchAllPages ''alice'' (observed fivePages) 2 []) = Inr agg \<and>
          releases agg = replicate 100 abbeyRoad @ replicate 100 abbeyRoad)"
  using fetchAllPages_pages [of 2 5 fivePages "''alice''"] fivePages_reports
  by (simp add: releasesOf_def fivePages_def fullPage_def one_to_two)

subsection \<open>The empty collection\<close>



subsection \<open>Truncation\<close>

lemma two_of_five:
  "fetchPages (observed fivePages) 2 [] 1 []
     = (Inr (replicate 100 abbeyRoad @ replicate 100 abbeyRoad, 2), exchanges 1 2)"
  using fetchPages_complete [of 2 5 fivePages "[]"] fivePages_reports
  by (simp add: releasesOf_def fivePages_def fullPage_def one_to_two)

text \<open>
  Claim C2 says that the aggregate carries a truncation flag which is true exactly when
  the source reports more pages than the cap, and that it is true with a cap of 2
  against a source of 5 pages. At that input the fetch function fetches pages 1 and 2
  and stops; \<^verbatim>\<open>wasTruncated\<close> compares the capped page count 2 with
  \<open>\<lceil>200 / 100\<rceil> = 2\<close> and is false, nothing is logged beyond the first message, and
  the value returned holds a pagination and the releases only.
\<close>

theorem two_of_five_not_flagged:
  "fetchAllPages ''alice'' (observed fivePages) 2 []
     = (Inr (aggregate 2 (replicate 100 abbeyRoad @ replicate 100 abbeyRoad)),
        [FetchingComplete ''alice'' 2],
        [Requested 1 100, Responded 1, Requested 2 100, Responded 2])
   \<and> \<not> wasTruncated 2 (replicate 100 abbeyRoad @ replicate 100 abbeyRoad)"
  by (simp add: fetchAllPages_def two_of_five wasTruncated_def exchanges_def exchange_def
      one_to_two)

text \<open>
  More generally, against a source that reports the same total of 1 or more on every
  page and serves on no page more than the 100 items asked for, and with a cap of 1 or
  more, the comparison of line 240 is false and the second message is not written,
  however many pages the cap leaves out.
\<close>

lemma length_concat_bound:
  "(\<And>x. x \<in> set xs \<Longrightarrow> length (f x) \<le> n) \<Longrightarrow> length (concat (map f xs)) \<le> n * length xs"
proof (induction xs)
  case Nil
  then show ?case by simp
next
  case (Cons x xs)
  then have "length (f x) \<le> n" and "length (concat (map f xs)) \<le> n * length xs" by simp_all
  then show ?case by simp
qed

lemma wasTruncated_full_pages:
  assumes "1 \<le> k" and "length rs \<le> 100 * nat k"
  shows "\<not> wasTruncated k rs"
proof -
  have "rat_of_nat (length rs) \<le> rat_of_nat (100 * nat k)"
    using assms(2) by (simp only: of_nat_le_iff)
  also have "\<dots> = 100 * rat_of_int k"
    using assms(1) by simp
  finally have "rat_of_nat (length rs) / 100 \<le> rat_of_int k" by simp
  then have "\<lceil>rat_of_nat (length rs) / 100\<rceil> \<le> k" by (simp add: ceiling_le_iff)
  with assms(1) show ?thesis by (simp add: wasTruncated_def)
qed

lemma truncation_never_logged:
  assumes m: "1 \<le> maxPages" and p: "1 \<le> P" and rep: "reportsTotal src P (min P maxPages)"
    and sizes: "\<And>q. 1 \<le> q \<Longrightarrow> q \<le> min P maxPages \<Longrightarrow> length (releasesOf src q) \<le> 100"
  shows "fetchAllPages username (observed src) maxPages []
     = (Inr (aggregate (min P maxPages) (concat (map (releasesOf src) [1..min P maxPages]))),
        [FetchingComplete username maxPages],
        exchanges 1 (min P maxPages))"
proof -
  let ?K = "min P maxPages"
  have K: "1 \<le> ?K" using m p by simp
  have "length (concat (map (releasesOf src) [1..?K])) \<le> 100 * length [1..?K]"
    by (rule length_concat_bound) (simp add: sizes)
  also have "length [1..?K] = nat ?K" by simp
  finally have "\<not> wasTruncated ?K (concat (map (releasesOf src) [1..?K]))"
    by (rule wasTruncated_full_pages [OF K])
  then show ?thesis
    using fetchPages_complete [OF m p rep, of "[]"] by (simp add: fetchAllPages_def)
qed

subsection \<open>Pagination of the aggregate\<close>

text \<open>
  Claim C6, as amended. For every aggregate the fetch function returns,
  \<^verbatim>\<open>pagination.page\<close> is 1, \<^verbatim>\<open>pagination.per_page\<close> and \<^verbatim>\<open>pagination.items\<close> are both the
  number of concatenated items, and \<^verbatim>\<open>pagination.pages\<close> is the smaller of the cap and
  the total that the last page fetched reports. When the cap is 1 or more and the source
  reports the same total of 1 or more on every page, that is the number of pages
  fetched.
\<close>

theorem aggregate_pagination:
  assumes ok: "fst (fetchAllPages username (observed src) maxPages []) = Inr agg"
  shows "page (pagination agg) = 1 \<and>
         per_page (pagination agg) = int (length (releases agg)) \<and>
         items (pagination agg) = int (length (releases agg)) \<and>
         (\<exists>k r. requestedPages (snd (snd (fetchAllPages username (observed src) maxPages []))) = [1..k]
                \<and> 1 \<le> k \<and> src k = Inr r
                \<and> pages (pagination agg) = min (pages (pagination r)) maxPages) \<and>
         (1 \<le> maxPages \<and> 1 \<le> P \<and> reportsTotal src P (min P maxPages) \<longrightarrow>
            pages (pagination agg)
              = int (length (requestedPages (snd (snd (fetchAllPages username (observed src) maxPages []))))))"
proof -
  let ?run = "fetchPages (observed src) maxPages [] 1 []"
  obtain k where k: "1 \<le> k" "snd ?run = [] @ exchanges 1 k"
    "fst ?run = (case src k of
          Inl e \<Rightarrow> Inl e
        | Inr r \<Rightarrow> Inr ([] @ concat (map (releasesOf src) [1..k]),
                       min (pages (pagination r)) maxPages))"
    using fetchPages_outcome [of 1 src maxPages "[]" "[]"] by blast
  from ok k(3) obtain r where r: "src k = Inr r"
    "agg = aggregate (min (pages (pagination r)) maxPages) (concat (map (releasesOf src) [1..k]))"
    by (cases "src k") (auto simp: fetchAllPages_value)
  have shape: "page (pagination agg) = 1 \<and>
         per_page (pagination agg) = int (length (releases agg)) \<and>
         items (pagination agg) = int (length (releases agg))"
    by (simp add: r(2) aggregate_def)
  have last: "\<exists>k r. requestedPages (snd (snd (fetchAllPages username (observed src) maxPages []))) = [1..k]
                \<and> 1 \<le> k \<and> src k = Inr r
                \<and> pages (pagination agg) = min (pages (pagination r)) maxPages"
    using k(1,2) r by (intro exI [of _ k] exI [of _ r])
      (simp add: fetchAllPages_world requestedPages_exchanges aggregate_def)
  have count: "pages (pagination agg)
      = int (length (requestedPages (snd (snd (fetchAllPages username (observed src) maxPages [])))))"
    if h: "1 \<le> maxPages \<and> 1 \<le> P \<and> reportsTotal src P (min P maxPages)"
  proof -
    from h have full: "?run = (Inr (concat (map (releasesOf src) [1..min P maxPages]), min P maxPages),
        [] @ exchanges 1 (min P maxPages))"
      using fetchPages_complete [of maxPages P src "[]"] by simp
    with ok have "agg = aggregate (min P maxPages) (concat (map (releasesOf src) [1..min P maxPages]))"
      by (simp add: fetchAllPages_value)
    with full h show ?thesis
      by (simp add: fetchAllPages_world requestedPages_exchanges aggregate_def)
  qed
  from shape last count show ?thesis by blast
qed

text \<open>The run of two pages out of five.\<close>

lemma two_of_five_value:
  "fst (fetchAllPages ''alice'' (observed fivePages) 2 [])
     = Inr (aggregate 2 (replicate 100 abbeyRoad @ replicate 100 abbeyRoad))"
  by (simp add: fetchAllPages_value two_of_five)

lemma two_of_five_journal:
  "snd (snd (fetchAllPages ''alice'' (observed fivePages) 2 [])) = exchanges 1 2"
  by (simp add: fetchAllPages_world two_of_five)

theorem aggregate_pagination_witness:
  "page (pagination (aggregate 2 (replicate 100 abbeyRoad @ replicate 100 abbeyRoad))) = 1 \<and>
   per_page (pagination (aggregate 2 (replicate 100 abbeyRoad @ replicate 100 abbeyRoad))) = 200 \<and>
   items (pagination (aggregate 2 (replicate 100 abbeyRoad @ replicate 100 abbeyRoad))) = 200 \<and>
   pages (pagination (aggregate 2 (replicate 100 abbeyRoad @ replicate 100 abbeyRoad))) = 2 \<and>
   length (requestedPages (snd (snd (fetchAllPages ''alice'' (observed fivePages) 2 [])))) = 2"
  using aggregate_pagination [OF two_of_five_value, of 5] fivePages_reports
  by (simp add: aggregate_def)

text \<open>
  Against a source whose pagination says 0 pages, one page is fetched and
  \<^verbatim>\<open>pagination.pages\<close> of the aggregate is 0, not 1.
\<close>

theorem pages_of_no_pages_counterexample:
  "fst (fetchAllPages ''alice'' (observed noPages) 25 []) = Inr (aggregate 0 []) \<and>
   pages (pagination (aggregate 0 [])) = 0 \<and>
   requestedPages (snd (snd (fetchAllPages ''alice'' (observed noPages) 25 []))) = [1]"
proof -
  have "fetchPages (observed noPages) 25 [] 1 []
      = (Inr ([] @ releases (projr (noPages 1)), min (pages (pagination (projr (noPages 1)))) 25),
         [] @ exchange 1)"
    by (rule fetchPages_last) (simp_all add: observed_def observing_exchange noPages_def)
  then show ?thesis
    by (simp add: fetchAllPages_value fetchAllPages_world noPages_def aggregate_def
        requestedPages_def exchange_def)
qed

subsection \<open>Order of the page fetches\<close>

text \<open>The journal of a run over any collaborator that answers from its journal and adds
  one exchange to it, with what made the loop go on.\<close>

lemma fetchPages_journal:
  assumes call: "\<And>p tr. search p 100 tr = (answer tr p, tr @ exchange p)"
  shows "\<exists>k. cur \<le> k \<and>
     snd (fetchPages search maxPages acc cur tr) = tr @ exchanges cur k \<and>
     (\<forall>p. cur \<le> p \<and> p < k \<longrightarrow>
        (\<exists>r. answer (tr @ exchanges cur (p - 1)) p = Inr r \<and>
             p + 1 \<le> min (pages (pagination r)) maxPages))"
proof (induction "nat (maxPages - cur)" arbitrary: cur acc tr rule: less_induct)
  case less
  show ?case
  proof (cases "answer tr cur")
    case (Inl e)
    with call [of cur tr] have "snd (fetchPages search maxPages acc cur tr) = tr @ exchanges cur cur"
      by (simp add: fetchPages_fail exchanges_one)
    then show ?thesis by (intro exI [of _ cur]) auto
  next
    case (Inr r)
    show ?thesis
    proof (cases "cur + 1 \<le> min (pages (pagination r)) maxPages")
      case True
      then have "nat (maxPages - (cur + 1)) < nat (maxPages - cur)" by linarith
      from less [OF this, of "acc @ releases r" "tr @ exchange cur"]
      obtain k where k: "cur + 1 \<le> k"
        "snd (fetchPages search maxPages (acc @ releases r) (cur + 1) (tr @ exchange cur))
          = (tr @ exchange cur) @ exchanges (cur + 1) k"
        "\<forall>p. cur + 1 \<le> p \<and> p < k \<longrightarrow>
           (\<exists>r. answer ((tr @ exchange cur) @ exchanges (cur + 1) (p - 1)) p = Inr r \<and>
                p + 1 \<le> min (pages (pagination r)) maxPages)"
        by blast
      from k(1) have le: "cur \<le> k" by simp
      from call [of cur tr] Inr True
      have "fetchPages search maxPages acc cur tr
        = fetchPages search maxPages (acc @ releases r) (cur + 1) (tr @ exchange cur)"
        by (simp add: fetchPages_more)
      with k(2) have journal: "snd (fetchPages search maxPages acc cur tr) = tr @ exchanges cur k"
        by (simp add: exchanges_step [OF le])
      have asked: "\<exists>r. answer (tr @ exchanges cur (p - 1)) p = Inr r \<and>
             p + 1 \<le> min (pages (pagination r)) maxPages" if p: "cur \<le> p \<and> p < k" for p
      proof (cases "p = cur")
        case True
        with Inr \<open>cur + 1 \<le> min (pages (pagination r)) maxPages\<close> show ?thesis
          by (simp add: exchanges_none)
      next
        case False
        with p have later: "cur + 1 \<le> p \<and> p < k" and prev: "cur \<le> p - 1" by simp_all
        have "(tr @ exchange cur) @ exchanges (cur + 1) (p - 1) = tr @ exchanges cur (p - 1)"
          by (simp add: exchanges_step [OF prev])
        with k(3) later show ?thesis by metis
      qed
      from le journal asked show ?thesis by blast
    next
      case False
      with call [of cur tr] Inr
      have "snd (fetchPages search maxPages acc cur tr) = tr @ exchanges cur cur"
        by (simp add: fetchPages_last exchanges_one)
      then show ?thesis by (intro exI [of _ cur]) auto
    qed
  qed
qed

text \<open>With the call and the await apart the loop is the loop: an awaited call is the call
  and then the await.\<close>

lemma fetchPagesStepwise_fetchPages:
  "fetchPagesStepwise call await maxPages acc cur w
     = fetchPages (\<lambda>p perPage w. case call p perPage w of (promise, w1) \<Rightarrow> await promise w1)
         maxPages acc cur w"
proof (induction "nat (maxPages - cur)" arbitrary: cur acc w rule: less_induct)
  case less
  let ?search = "\<lambda>p perPage w. case call p perPage w of (promise, w1) \<Rightarrow> await promise w1"
  obtain promise w1 where c: "call cur 100 w = (promise, w1)" by (cases "call cur 100 w")
  obtain res w' where a: "await promise w1 = (res, w')" by (cases "await promise w1")
  from c a have s: "?search cur 100 w = (res, w')" by simp
  show ?case
  proof (cases res)
    case (Inl e)
    with c a s show ?thesis
      by (simp add: fetchPages_fail [of ?search] fetchPagesStepwise.simps [of call await maxPages acc cur w])
  next
    case (Inr r)
    show ?thesis
    proof (cases "cur + 1 \<le> min (pages (pagination r)) maxPages")
      case True
      then have "nat (maxPages - (cur + 1)) < nat (maxPages - cur)" by linarith
      from less [OF this, of "acc @ releases r" w'] s Inr True c a show ?thesis
        by (simp add: fetchPages_more [of ?search cur w r w']
            fetchPagesStepwise.simps [of call await maxPages acc cur w] Let_def)
    next
      case False
      with s Inr c a show ?thesis
        by (auto simp: fetchPages_last [of ?search cur w r w']
            fetchPagesStepwise.simps [of call await maxPages acc cur w] Let_def)
    qed
  qed
qed

lemma issuing_settling:
  "(case issuing p 100 tr of (promise, w1) \<Rightarrow> settling src promise w1)
     = (src (tr @ [Requested p 100]) p, tr @ exchange p)"
  by (simp add: issuing_def settling_def exchange_def)

text \<open>
  Claim C5. Whatever the source answers and whatever the cap, the journal of the loop,
  started as lines 221 to 223 start it, is in order: the request for page \<open>n + 1\<close> is
  issued only after the response for page \<open>n\<close> has been received, and no request is
  issued while another is in flight. The request is written by the call and the response
  by the await, so it is the loop that puts nothing between the two; and it is from the
  response to page \<open>n\<close>, which has to ask for more than \<open>n\<close> pages, that the loop
  goes on to request page \<open>n + 1\<close>.
\<close>

theorem pages_fetched_in_order:
  "inOrder 0 None (snd (fetchPagesStepwise issuing (settling src) maxPages [] 1 [])) \<and>
   (\<forall>n. 1 \<le> n \<and>
        n + 1 \<in> set (requestedPages (snd (fetchPagesStepwise issuing (settling src) maxPages [] 1 [])))
      \<longrightarrow> (\<exists>r. src (exchanges 1 (n - 1) @ [Requested n 100]) n = Inr r \<and>
               n + 1 \<le> min (pages (pagination r)) maxPages))"
proof -
  let ?search = "\<lambda>p perPage tr. case issuing p perPage tr of (promise, w1) \<Rightarrow> settling src promise w1"
  let ?answer = "\<lambda>tr p. src (tr @ [Requested p 100]) p"
  have call: "?search p 100 tr = (?answer tr p, tr @ exchange p)" for p tr
    by (rule issuing_settling)
  obtain k where k: "snd (fetchPages ?search maxPages [] 1 []) = [] @ exchanges 1 k"
    "\<forall>p. 1 \<le> p \<and> p < k \<longrightarrow>
        (\<exists>r. ?answer ([] @ exchanges 1 (p - 1)) p = Inr r \<and>
             p + 1 \<le> min (pages (pagination r)) maxPages)"
    using fetchPages_journal [of ?search ?answer 1 maxPages "[]" "[]", OF call] by blast
  have journal: "snd (fetchPagesStepwise issuing (settling src) maxPages [] 1 []) = exchanges 1 k"
    using k(1) by (simp add: fetchPagesStepwise_fetchPages)
  have order: "inOrder 0 None (exchanges 1 k)"
    using inOrder_exchanges [of 1 k] by simp
  show ?thesis
    unfolding journal using order k(2) by (auto simp: requestedPages_exchanges)
qed

text \<open>The two fetches of the run of two pages out of five.\<close>

lemma stepwise_observed:
  "fetchPagesStepwise issuing (settling (\<lambda>tr. src)) maxPages acc cur tr
     = fetchPages (observed src) maxPages acc cur tr"
proof -
  have "(\<lambda>p perPage tr. case issuing p perPage tr of (promise, w1) \<Rightarrow> settling (\<lambda>tr. src) promise w1)
      = observed src"
    by (intro ext) (simp add: issuing_def settling_def observed_def observing_def)
  then show ?thesis by (simp add: fetchPagesStepwise_fetchPages)
qed

theorem pages_fetched_in_order_witness:
  "snd (fetchPagesStepwise issuing (settling (\<lambda>tr. fivePages)) 2 [] 1 [])
     = [Requested 1 100, Responded 1, Requested 2 100, Responded 2] \<and>
   inOrder 0 None (snd (fetchPagesStepwise issuing (settling (\<lambda>tr. fivePages)) 2 [] 1 [])) \<and>
   (\<exists>r. fivePages 1 = Inr r \<and> 2 \<le> min (pages (pagination r)) 2)"
proof -
  have journal: "snd (fetchPagesStepwise issuing (settling (\<lambda>tr. fivePages)) 2 [] 1 [])
     = [Requested 1 100, Responded 1, Requested 2 100, Responded 2]"
    by (simp add: stepwise_observed two_of_five exchanges_def exchange_def one_to_two)
  from pages_fetched_in_order [of "\<lambda>tr. fivePages" 2] show ?thesis
    unfolding journal by (auto simp: requestedPages_def)
qed

text \<open>
  The check tells this loop from one that fans out. Driven so that, once page 1 has told
  the total, pages 2 and 3 are both requested before either is awaited, the same
  collaborator leaves a journal that is not in order.
\<close>

lemma fan_out_not_in_order:
  "\<not> inOrder 0 None
      (snd (settling src 3 (snd (settling src 2
         (snd (issuing 3 100 (snd (issuing 2 100
            (snd (settling src 1 (snd (issuing 1 100 []))))))))))))"
  by (simp add: issuing_def settling_def)

section \<open>Properties of getCompleteCollection\<close>

subsection \<open>The fetch function in the world of the cache\<close>

lemma fetchPages_viaJournal:
  "fetchPages (viaJournal search) maxPages acc cur w
     = (case fetchPages search maxPages acc cur (journal w) of (r, tr) \<Rightarrow> (r, w\<lparr>journal := tr\<rparr>))"
proof (induction "nat (maxPages - cur)" arbitrary: cur acc w rule: less_induct)
  case less
  obtain res tr where call: "search cur 100 (journal w) = (res, tr)"
    by (cases "search cur 100 (journal w)")
  then have lifted: "viaJournal search cur 100 w = (res, w\<lparr>journal := tr\<rparr>)"
    by (simp add: viaJournal_def)
  show ?case
  proof (cases res)
    case (Inl e)
    with call lifted show ?thesis by (simp add: fetchPages_fail)
  next
    case (Inr r)
    show ?thesis
    proof (cases "cur + 1 \<le> min (pages (pagination r)) maxPages")
      case True
      then have "nat (maxPages - (cur + 1)) < nat (maxPages - cur)" by linarith
      from less [OF this, of "acc @ releases r" "w\<lparr>journal := tr\<rparr>"] call lifted Inr True
      show ?thesis by (simp add: fetchPages_more)
    next
      case False
      with call lifted Inr show ?thesis by (simp add: fetchPages_last)
    qed
  qed
qed

lemma fetchPages_failing:
  assumes k: "1 \<le> k" "k \<le> min P maxPages" and rep: "reportsTotal src P (k - 1)"
    and fails: "src k = Inl e"
  shows "fetchPages (observed src) maxPages [] 1 tr = (Inl e, tr @ exchanges 1 k)"
proof -
  have before: "\<forall>q. 1 \<le> q \<and> q < k \<longrightarrow>
      (\<exists>r. src q = Inr r \<and> q + 1 \<le> min (pages (pagination r)) maxPages)"
  proof (intro allI impI)
    fix q assume q: "1 \<le> q \<and> q < k"
    then obtain r where "src q = Inr r" "pages (pagination r) = P"
      using reportsTotal_page [OF rep, of q] by auto
    with q k(2) show "\<exists>r. src q = Inr r \<and> q + 1 \<le> min (pages (pagination r)) maxPages" by auto
  qed
  let ?before = "concat (map (releasesOf src) [1..k - 1])"
  have run: "fetchPages (observed src) maxPages [] 1 tr
    = fetchPages (observed src) maxPages ?before k (tr @ exchanges 1 (k - 1))"
    using fetchPages_run [OF k(1) before, of "[]" tr] by simp
  have "observed src k 100 (tr @ exchanges 1 (k - 1)) = (Inl e, (tr @ exchanges 1 (k - 1)) @ exchange k)"
    by (simp add: observed_def observing_exchange fails)
  then have last: "fetchPages (observed src) maxPages ?before k (tr @ exchanges 1 (k - 1))
     = (Inl e, (tr @ exchanges 1 (k - 1)) @ exchange k)"
    by (rule fetchPages_fail)
  have journal: "(tr @ exchanges 1 (k - 1)) @ exchange k = tr @ exchanges 1 k"
    by (simp add: exchanges_last [OF k(1)])
  show ?thesis unfolding run last journal ..
qed

subsection \<open>A failed fetch\<close>

lemma cached_pending: "cached (w\<lparr>pending := X\<rparr>) k = cached w k"
  by (simp add: cached_def split: option.splits)

lemma cached_journal: "cached (w\<lparr>journal := tr\<rparr>) k = cached w k"
  by (simp add: cached_def split: option.splits)

lemma getOrFetch_rejects:
  assumes "fullKey category key \<notin> pending w"
    and "cached w (fullKey category key) = None"
    and "fetchFn (w\<lparr>pending := insert (fullKey category key) (pending w)\<rparr>) = (Inl e, w2)"
  shows "getOrFetch defaultTtl category key fetchFn maxAge w
    = (Rejected e, w2\<lparr>pending := pending w2 - {fullKey category key}\<rparr>)"
  using assms by (simp add: getOrFetch_def Let_def cached_pending)

lemma fetchFn_fails:
  assumes "1 \<le> k" and "k \<le> min P maxPages" and "reportsTotal src P (k - 1)" and "src k = Inl e"
  shows "(case fetchAllPages username (viaJournal (observed src)) maxPages w of
            (r, console, w') \<Rightarrow> (r, w'))
     = (Inl e, w\<lparr>journal := journal w @ exchanges 1 k\<rparr>)"
  using fetchPages_failing [OF assms, of "journal w"]
  by (simp add: fetchAllPages_def fetchPages_viaJournal)

lemma getCompleteCollection_rejects:
  assumes k: "1 \<le> k" "k \<le> min P maxPages" and rep: "reportsTotal src P (k - 1)"
    and fails: "src k = Inl e"
    and idle: "fullKey ''collections'' (cacheKey username maxPages) \<notin> pending w"
    and miss: "cached w (fullKey ''collections'' (cacheKey username maxPages)) = None"
  shows "getCompleteCollection defaultTtl username (viaJournal (observed src)) maxPages w
     = (Rejected e, w\<lparr>journal := journal w @ exchanges 1 k\<rparr>)"
proof -
  let ?k = "fullKey ''collections'' (cacheKey username maxPages)"
  let ?w1 = "w\<lparr>pending := insert ?k (pending w)\<rparr>"
  have restored: "insert ?k (pending w) - {?k} = pending w"
    using idle by auto
  have "getCompleteCollection defaultTtl username (viaJournal (observed src)) maxPages w
    = (Rejected e, (?w1\<lparr>journal := journal ?w1 @ exchanges 1 k\<rparr>)
        \<lparr>pending := pending (?w1\<lparr>journal := journal ?w1 @ exchanges 1 k\<rparr>) - {?k}\<rparr>)"
    unfolding getCompleteCollection_def
    by (rule getOrFetch_rejects [OF idle miss fetchFn_fails [OF k rep fails]])
  then show ?thesis
    using restored by simp
qed

text \<open>
  Claim C4. Let the source report \<open>P\<close> pages, and let the fetch of a page \<open>k\<close> between 1
  and \<open>min P maxPages\<close> fail with an error \<open>e\<close>, the pages before it being served. On
  a cache miss with no fetch in flight for the key, \<^verbatim>\<open>getCompleteCollection\<close> rejects
  with \<open>e\<close> itself, after requesting the pages 1 to \<open>k\<close>; the store is as it was, so
  no partial aggregate is written, and the pending registry is as it was. A second call
  with the same user name and cap requests the pages 1 to \<open>k\<close> again: it fetches
  anew and replays nothing.
\<close>

theorem failed_aggregation_not_cached:
  assumes "1 \<le> k" and "k \<le> min P maxPages" and "reportsTotal src P (k - 1)"
    and "src k = Inl e"
    and "fullKey ''collections'' (cacheKey username maxPages) \<notin> pending w"
    and "cached w (fullKey ''collections'' (cacheKey username maxPages)) = None"
  shows "getCompleteCollection defaultTtl username (viaJournal (observed src)) maxPages w
           = (Rejected e, w\<lparr>journal := journal w @ exchanges 1 k\<rparr>) \<and>
         store (snd (getCompleteCollection defaultTtl username (viaJournal (observed src)) maxPages w))
           = store w \<and>
         pending (snd (getCompleteCollection defaultTtl username (viaJournal (observed src)) maxPages w))
           = pending w \<and>
         getCompleteCollection defaultTtl username (viaJournal (observed src)) maxPages
             (snd (getCompleteCollection defaultTtl username (viaJournal (observed src)) maxPages w))
           = (Rejected e, w\<lparr>journal := journal w @ exchanges 1 k @ exchanges 1 k\<rparr>)"
proof -
  let ?w' = "w\<lparr>journal := journal w @ exchanges 1 k\<rparr>"
  have first: "getCompleteCollection defaultTtl username (viaJournal (observed src)) maxPages w
           = (Rejected e, ?w')"
    by (rule getCompleteCollection_rejects [OF assms])
  have idle': "fullKey ''collections'' (cacheKey username maxPages) \<notin> pending ?w'"
    using assms(5) by simp
  have miss': "cached ?w' (fullKey ''collections'' (cacheKey username maxPages)) = None"
    using assms(6) by (simp only: cached_journal)
  have second: "getCompleteCollection defaultTtl username (viaJournal (observed src)) maxPages ?w'
           = (Rejected e, ?w'\<lparr>journal := journal ?w' @ exchanges 1 k\<rparr>)"
    by (rule getCompleteCollection_rejects [OF assms(1-4) idle' miss'])
  show ?thesis
    unfolding first using second by simp
qed

text \<open>At a cold start, with a source whose second page is rate-limited.\<close>

lemma secondPageFails_first: "reportsTotal secondPageFails 5 (2 - 1)"
  by (simp add: reportsTotal_def secondPageFails_def fivePages_def fullPage_def)

theorem failed_aggregation_not_cached_witness:
  "getCompleteCollection hourly ''alice'' (viaJournal (observed secondPageFails)) 25 coldStart
     = (Rejected ''429 Too Many Requests'',
        coldStart\<lparr>journal := [Requested 1 100, Responded 1, Requested 2 100, Responded 2]\<rparr>) \<and>
   store (snd (getCompleteCollection hourly ''alice'' (viaJournal (observed secondPageFails)) 25
      coldStart)) = Map.empty \<and>
   pending (snd (getCompleteCollection hourly ''alice'' (viaJournal (observed secondPageFails)) 25
      coldStart)) = {} \<and>
   getCompleteCollection hourly ''alice'' (viaJournal (observed secondPageFails)) 25
       (snd (getCompleteCollection hourly ''alice'' (viaJournal (observed secondPageFails)) 25
          coldStart))
     = (Rejected ''429 Too Many Requests'',
        coldStart\<lparr>journal := [Requested 1 100, Responded 1, Requested 2 100, Responded 2,
                               Requested 1 100, Responded 1, Requested 2 100, Responded 2]\<rparr>)"
proof -
  have idle: "fullKey ''collections'' (cacheKey ''alice'' 25) \<notin> pending coldStart"
    by (simp add: coldStart_def)
  have miss: "cached coldStart (fullKey ''collections'' (cacheKey ''alice'' 25)) = None"
    by (simp add: coldStart_def cached_def)
  have fails: "secondPageFails 2 = Inl ''429 Too Many Requests''"
    by (simp add: secondPageFails_def)
  have range: "(1::int) \<le> 2" "(2::int) \<le> min 5 25"
    by simp_all
  note run = failed_aggregation_not_cached [OF range secondPageFails_first fails idle miss,
      of hourly]
  have journal: "exchanges 1 2 = [Requested 1 100, Responded 1, Requested 2 100, Responded 2]"
    by (simp add: exchanges_def exchange_def one_to_two)
  have start: "store coldStart = Map.empty" "pending coldStart = {}" "journal coldStart = []"
    by (simp_all add: coldStart_def)
  from run show ?thesis
    unfolding journal by (elim conjE) (simp add: start)
qed

section \<open>Properties of SmartCache under concurrent callers\<close>

subsection \<open>While a future is in flight\<close>

text \<open>One occurrence that leaves the future of \<open>k\<close> in flight: callers may join it, the
  store may reply that it holds nothing, and nothing else touches it.\<close>

lemma step_in_flight:
  assumes q: "requests s k = Some q" and before: "k \<in> pending s"
    and after: "k \<in> pending (step defaultTtl s ev)"
  shows "\<exists>q1. requests (step defaultTtl s ev) k = Some q1 \<and>
           callers q1 = callers q @ joiners k [ev] \<and> ttl q1 = ttl q \<and>
           cached (step defaultTtl s ev) k = cached s k \<and>
           (if ev = StoreReplies k \<and> phase q = LookingUp
            then phase q1 = Fetching \<and> cached s k = None \<and>
                 invocations k (step defaultTtl s ev) = invocations k s + 1
            else phase q1 = phase q \<and>
                 invocations k (step defaultTtl s ev) = invocations k s)"
proof (cases ev)
  case (Calls c category key maxAge)
  with q before show ?thesis
    by (auto simp: Let_def cached_def invocations_def split: option.splits)
next
  case (StoreReplies k')
  show ?thesis
  proof (cases "k' = k")
    case True
    with StoreReplies q before after show ?thesis
      by (auto simp: deliver_def cached_def invocations_def split: option.splits if_splits)
  next
    case False
    with StoreReplies q before show ?thesis
      by (auto simp: deliver_def cached_def invocations_def split: option.splits)
  qed
next
  case (FetchSettles k' r)
  show ?thesis
  proof (cases "k' = k")
    case True
    with FetchSettles q before after show ?thesis
      by (auto simp: deliver_def cached_def invocations_def split: option.splits sum.splits if_splits)
  next
    case False
    with FetchSettles q before show ?thesis
      by (auto simp: deliver_def cached_def invocations_def split: option.splits sum.splits)
  qed
qed

lemma inFlightThroughout_start: "inFlightThroughout defaultTtl k s evs \<Longrightarrow> k \<in> pending s"
  by (cases evs) simp_all

lemma window:
  assumes "requests s k = Some q" and "inFlightThroughout defaultTtl k s evs"
  shows "\<exists>q'. requests (run defaultTtl s evs) k = Some q' \<and>
           callers q' = callers q @ joiners k evs \<and> ttl q' = ttl q \<and>
           cached (run defaultTtl s evs) k = cached s k \<and>
           (if phase q = LookingUp \<and> lookedUp k evs
            then phase q' = Fetching \<and> cached s k = None \<and>
                 invocations k (run defaultTtl s evs) = invocations k s + 1
            else phase q' = phase q \<and>
                 invocations k (run defaultTtl s evs) = invocations k s)"
  using assms
proof (induction evs arbitrary: s q)
  case Nil
  then show ?case by (simp add: run_def lookedUp_def)
next
  case (Cons ev evs)
  from Cons.prems(2) have before: "k \<in> pending s"
    and rest: "inFlightThroughout defaultTtl k (step defaultTtl s ev) evs" by simp_all
  from rest have after: "k \<in> pending (step defaultTtl s ev)"
    by (rule inFlightThroughout_start)
  from step_in_flight [OF Cons.prems(1) before after]
  obtain q1 where q1: "requests (step defaultTtl s ev) k = Some q1"
    "callers q1 = callers q @ joiners k [ev]" "ttl q1 = ttl q"
    "cached (step defaultTtl s ev) k = cached s k"
    "if ev = StoreReplies k \<and> phase q = LookingUp
     then phase q1 = Fetching \<and> cached s k = None \<and>
          invocations k (step defaultTtl s ev) = invocations k s + 1
     else phase q1 = phase q \<and> invocations k (step defaultTtl s ev) = invocations k s"
    by blast
  from Cons.IH [OF q1(1) rest]
  obtain q' where q': "requests (run defaultTtl (step defaultTtl s ev) evs) k = Some q'"
    "callers q' = callers q1 @ joiners k evs" "ttl q' = ttl q1"
    "cached (run defaultTtl (step defaultTtl s ev) evs) k = cached (step defaultTtl s ev) k"
    "if phase q1 = LookingUp \<and> lookedUp k evs
     then phase q' = Fetching \<and> cached (step defaultTtl s ev) k = None \<and>
          invocations k (run defaultTtl (step defaultTtl s ev) evs)
            = invocations k (step defaultTtl s ev) + 1
     else phase q' = phase q1 \<and>
          invocations k (run defaultTtl (step defaultTtl s ev) evs)
            = invocations k (step defaultTtl s ev)"
    by blast
  have unfold: "run defaultTtl s (ev # evs) = run defaultTtl (step defaultTtl s ev) evs"
    by (simp add: run_def)
  have joined: "joiners k (ev # evs) = joiners k [ev] @ joiners k evs"
    by (cases ev) simp_all
  have looked: "lookedUp k (ev # evs) \<longleftrightarrow> ev = StoreReplies k \<or> lookedUp k evs"
    by (auto simp: lookedUp_def)
  show ?case
    unfolding unfold joined looked
    using q1(2-5) q'
    by (intro exI [of _ q']) (auto split: if_splits)
qed

subsection \<open>Single flight\<close>

lemma first_call:
  assumes "fullKey category key \<notin> pending s"
  shows "requests (step defaultTtl s (Calls c category key maxAge)) (fullKey category key)
      = Some \<lparr>phase = LookingUp,
              ttl = (case maxAge of Some age \<Rightarrow> age | None \<Rightarrow> defaultTtl category),
              callers = [c]\<rparr>
    \<and> cached (step defaultTtl s (Calls c category key maxAge)) (fullKey category key)
      = cached s (fullKey category key)
    \<and> invocations (fullKey category key) (step defaultTtl s (Calls c category key maxAge))
      = invocations (fullKey category key) s"
  using assms by (simp add: Let_def cached_def invocations_def split: option.splits)

lemma settle_fetch:
  assumes "requests s k = Some q" and "phase q = Fetching"
  shows "invocations k (step defaultTtl s (FetchSettles k r)) = invocations k s \<and>
         received (step defaultTtl s (FetchSettles k r)) = received s @ map (\<lambda>c. (c, r)) (callers q) \<and>
         k \<notin> pending (step defaultTtl s (FetchSettles k r))"
  using assms by (simp add: deliver_def invocations_def split: sum.splits)

lemma settle_lookup:
  assumes "requests s k = Some q" and "phase q = LookingUp"
  shows "case cached s k of
           None \<Rightarrow> invocations k (step defaultTtl s (StoreReplies k)) = invocations k s + 1
         | Some v \<Rightarrow>
             invocations k (step defaultTtl s (StoreReplies k)) = invocations k s \<and>
             received (step defaultTtl s (StoreReplies k))
               = received s @ map (\<lambda>c. (c, Inr v)) (callers q) \<and>
             k \<notin> pending (step defaultTtl s (StoreReplies k))"
  using assms by (simp add: deliver_def invocations_def split: option.splits)

text \<open>
  Claim C1, as amended. Let a caller call \<^verbatim>\<open>getOrFetch\<close> for a category and a key that
  has no pending request, and let any schedule follow during which the future of that
  call does not settle, with any number of further calls for the same category and key,
  and calls and replies for other keys. Then the fetch function is invoked at most once
  for the key: exactly once when the store has replied, which it does only if it holds
  no fresh entry, and then every one of these callers receives the result with which
  that one fetch settles; not at all before the reply, and the reply itself invokes the
  fetch function once if the store holds no fresh entry and not at all if it holds
  one, in which case every one of these callers receives the stored value.
\<close>

theorem single_flight:
  assumes idle: "fullKey category key \<notin> pending s"
    and inFlight: "inFlightThroughout defaultTtl (fullKey category key)
           (step defaultTtl s (Calls c category key maxAge)) evs"
  shows "let k = fullKey category key;
             s' = run defaultTtl (step defaultTtl s (Calls c category key maxAge)) evs
         in invocations k s' \<le> invocations k s + 1 \<and>
            (lookedUp k evs \<longrightarrow>
               cached s k = None \<and> invocations k s' = invocations k s + 1 \<and>
               (\<forall>r. invocations k (step defaultTtl s' (FetchSettles k r)) = invocations k s + 1 \<and>
                    received (step defaultTtl s' (FetchSettles k r))
                      = received s' @ map (\<lambda>c'. (c', r)) (c # joiners k evs) \<and>
                    k \<notin> pending (step defaultTtl s' (FetchSettles k r)))) \<and>
            (\<not> lookedUp k evs \<longrightarrow>
               invocations k s' = invocations k s \<and>
               (case cached s k of
                  None \<Rightarrow> invocations k (step defaultTtl s' (StoreReplies k)) = invocations k s + 1
                | Some v \<Rightarrow>
                    invocations k (step defaultTtl s' (StoreReplies k)) = invocations k s \<and>
                    received (step defaultTtl s' (StoreReplies k))
                      = received s' @ map (\<lambda>c'. (c', Inr v)) (c # joiners k evs) \<and>
                    k \<notin> pending (step defaultTtl s' (StoreReplies k))))"
proof -
  let ?k = "fullKey category key"
  let ?s1 = "step defaultTtl s (Calls c category key maxAge)"
  let ?s' = "run defaultTtl ?s1 evs"
  let ?q = "\<lparr>phase = LookingUp,
              ttl = (case maxAge of Some age \<Rightarrow> age | None \<Rightarrow> defaultTtl category),
              callers = [c]\<rparr>"
  note step.simps [simp del]
  note first = first_call [OF idle, of defaultTtl c maxAge]
  from first have q: "requests ?s1 ?k = Some ?q" by simp
  from first have c1: "cached ?s1 ?k = cached s ?k"
    and i1: "invocations ?k ?s1 = invocations ?k s" by blast+
  from window [OF q inFlight]
  obtain q' where w: "requests ?s' ?k = Some q'" "callers q' = callers ?q @ joiners ?k evs"
    "cached ?s' ?k = cached ?s1 ?k"
    "if phase ?q = LookingUp \<and> lookedUp ?k evs
     then phase q' = Fetching \<and> cached ?s1 ?k = None \<and> invocations ?k ?s' = invocations ?k ?s1 + 1
     else phase q' = phase ?q \<and> invocations ?k ?s' = invocations ?k ?s1"
    by blast
  have q': "requests ?s' ?k = Some q'" "callers q' = c # joiners ?k evs"
    "cached ?s' ?k = cached s ?k"
    "if lookedUp ?k evs
     then phase q' = Fetching \<and> cached s ?k = None \<and> invocations ?k ?s' = invocations ?k s + 1
     else phase q' = LookingUp \<and> invocations ?k ?s' = invocations ?k s"
    using w by (auto simp: c1 i1 split: if_splits)
  show ?thesis
  proof (cases "lookedUp ?k evs")
    case True
    with q'(4) have f: "phase q' = Fetching" "cached s ?k = None"
      "invocations ?k ?s' = invocations ?k s + 1" by simp_all
    from settle_fetch [OF q'(1) f(1), of defaultTtl] True f q'(2)
    show ?thesis by (simp add: Let_def)
  next
    case False
    with q'(4) have l: "phase q' = LookingUp" "invocations ?k ?s' = invocations ?k s" by simp_all
    from settle_lookup [OF q'(1) l(1), of defaultTtl] False l q'(2,3)
    show ?thesis by (simp add: Let_def split: option.splits)
  qed
qed

text \<open>Three callers on a cold instance: one invocation, one result for all.\<close>

lemma alice_key: "fullKey ''collections'' ''alice'' = ''collections:alice''"
  by (simp add: fullKey_def)

theorem single_flight_witness:
  "invocations ''collections:alice''
      (run hourly coldDispatcher
         [Calls 1 ''collections'' ''alice'' None, Calls 2 ''collections'' ''alice'' None,
          StoreReplies ''collections:alice'', Calls 3 ''collections'' ''alice'' None]) = 1 \<and>
   received
      (run hourly coldDispatcher
         [Calls 1 ''collections'' ''alice'' None, Calls 2 ''collections'' ''alice'' None,
          StoreReplies ''collections:alice'', Calls 3 ''collections'' ''alice'' None,
          FetchSettles ''collections:alice'' (Inr ''aggregate'')])
     = [(1, Inr ''aggregate''), (2, Inr ''aggregate''), (3, Inr ''aggregate'')]"
proof -
  let ?evs = "[Calls 2 ''collections'' ''alice'' None, StoreReplies ''collections:alice'',
          Calls 3 ''collections'' ''alice'' None] :: (string, string) occurrence list"
  have idle: "fullKey ''collections'' ''alice'' \<notin> pending coldDispatcher"
    by (simp add: coldDispatcher_def)
  have inFlight: "inFlightThroughout hourly (fullKey ''collections'' ''alice'')
      (step hourly coldDispatcher (Calls 1 ''collections'' ''alice'' None)) ?evs"
    by (simp add: alice_key coldDispatcher_def cached_def Let_def)
  have looked: "lookedUp ''collections:alice'' ?evs"
    by (simp add: lookedUp_def)
  from single_flight [OF idle inFlight] looked
  show ?thesis
    by (simp add: Let_def alice_key run_def coldDispatcher_def invocations_def cached_def
        deliver_def)
qed

text \<open>
  Two callers before the first call settles, on an instance that holds a fresh value:
  the fetch function is not invoked at all, and both receive the stored value.
\<close>

theorem stored_value_counterexample:
  "invocations ''collections:alice''
      (run hourly warmDispatcher
         [Calls 1 ''collections'' ''alice'' None, Calls 2 ''collections'' ''alice'' None,
          StoreReplies ''collections:alice'']) = 0 \<and>
   received
      (run hourly warmDispatcher
         [Calls 1 ''collections'' ''alice'' None, Calls 2 ''collections'' ''alice'' None,
          StoreReplies ''collections:alice''])
     = [(1, Inr ''stored''), (2, Inr ''stored'')]"
  by (simp add: run_def warmDispatcher_def alice_key Let_def cached_def deliver_def
      invocations_def)

end
